theory Spec2Isabelle
  imports Main "HOL-Library.Multiset"
begin

section \<open>Values, dialogue acts and the dialogue state\<close>

text \<open>
  The policy of \<^verbatim>\<open>moviebot/dialogue_manager/dialogue_policy.py\<close> works on Python values of
  type \<^verbatim>\<open>Any\<close>: the values of item constraints and of the entries of dictionaries. The
  embedding keeps the kinds of value the policy builds or tests: \<^verbatim>\<open>None\<close>, booleans,
  integers, strings and lists. A string is a list of characters with code points below 256.
\<close>

datatype pyval = PNone | PBool bool | PInt int | PStr string | PList "pyval list"

text \<open>Python's truth value of an object, as \<^verbatim>\<open>not x\<close> and \<^verbatim>\<open>if x\<close> test it.\<close>

fun truthy :: "pyval \<Rightarrow> bool" where
  "truthy PNone = False"
| "truthy (PBool b) = b"
| "truthy (PInt i) = (i \<noteq> 0)"
| "truthy (PStr s) = (s \<noteq> [])"
| "truthy (PList xs) = (xs \<noteq> [])"

text \<open>
  The exceptions the policy can raise. None is raised by a \<^verbatim>\<open>raise\<close> statement of the
  policy: all come from subscripting, from attribute access and from \<^verbatim>\<open>random.sample\<close>.
\<close>

datatype error = KeyError string | IndexError | TypeError | AttributeError | ValueError

text \<open>
  A dictionary with string keys, in insertion order (the order \<^verbatim>\<open>keys()\<close> iterates in).
  \<^verbatim>\<open>d[k]\<close> raises \<^verbatim>\<open>KeyError\<close> for a missing key.
\<close>

type_synonym 'v dict = "(string \<times> 'v) list"

definition keys :: "'v dict \<Rightarrow> string list" where
  "keys d = map fst d"

definition dict_getitem :: "'v dict \<Rightarrow> string \<Rightarrow> error + 'v" where
  "dict_getitem d k = (case map_of d k of None \<Rightarrow> Inl (KeyError k) | Some v \<Rightarrow> Inr v)"

text \<open>
  Modelled from the spec: the enumerations \<^verbatim>\<open>Operator\<close>, \<^verbatim>\<open>UserIntents\<close> and \<^verbatim>\<open>AgentIntents\<close>,
  which the policy imports and whose declarations are not part of the sources at hand. An
  operator is a comparison kind, at least equality; an intent is an enumeration tag. Each
  datatype has the members that the policy names, and one more constructor for all the
  others. The members of \<^verbatim>\<open>UserIntents\<close> carry the prefix \<open>U_\<close> and those of \<^verbatim>\<open>AgentIntents\<close>
  the prefix \<open>A_\<close>, since both enumerations have a member \<^verbatim>\<open>RESTART\<close>.
\<close>

datatype Operator = EQ | Operator_other string

datatype UserIntents =
  U_RESTART | U_HI | U_ACKNOWLEDGE | U_UNK | U_INQUIRE | U_ACCEPT | U_other string

datatype AgentIntents =
  A_RESTART | A_ELICIT | A_WELCOME | A_COUNT_RESULTS | A_RECOMMEND | A_INFORM
| A_CONTINUE_RECOMMENDATION | A_NO_RESULTS | A_BYE | A_CANT_HELP | A_other string

text \<open>
  The enumeration \<^verbatim>\<open>Slots\<close> is not part of the sources at hand either. The two slot names
  that the policy reads, \<^verbatim>\<open>Slots.TITLE.value\<close> and \<^verbatim>\<open>Slots.MORE_INFO.value\<close>, are parameters
  of every function that reads them.
\<close>

record Slots =
  TITLE :: string
  MORE_INFO :: string

text \<open>
  Modelled from the spec: the class \<^verbatim>\<open>ItemConstraint\<close>, a slot name, an operator and a value,
  with structural equality.
\<close>

datatype ItemConstraint = ItemConstraint (slot: string) (op: Operator) (val: pyval)

text \<open>
  Modelled from the spec: the class \<^verbatim>\<open>DialogueAct\<close>, an intent tag and an ordered sequence of
  item constraints. \<^verbatim>\<open>DialogueAct(intent)\<close> without parameters is the act with the empty
  sequence.
\<close>

datatype 'i DialogueAct = DialogueAct (intent: 'i) (params: "ItemConstraint list")

type_synonym agent_dacts = "AgentIntents DialogueAct list"

subsection \<open>The store\<close>

text \<open>
  The lists and dictionaries of a dialogue state are mutable Python objects, and the policy
  shuffles lists in place. The objects that a snapshot shares with its caller live in a
  store: a reference is an index into it, allocation appends. A snapshot holds references
  to its list of requestable slots, to its frame and to its database result.
\<close>

type_synonym ref = nat

datatype obj =
  StrList "string list"
| Frame "pyval dict"
| Results "pyval dict list"

type_synonym store = "obj list"

definition alloc :: "obj \<Rightarrow> store \<Rightarrow> ref \<times> store" where
  "alloc ob h = (length h, h @ [ob])"

text \<open>
  Reading through a reference. A reference outside the store, or to an object of another
  kind, is no snapshot of the state tracker; the read then fails with \<open>TypeError\<close>.
\<close>

definition get_list :: "store \<Rightarrow> ref \<Rightarrow> error + string list" where
  "get_list h r =
     (if r < length h then (case h ! r of StrList xs \<Rightarrow> Inr xs | _ \<Rightarrow> Inl TypeError)
      else Inl TypeError)"

definition get_frame :: "store \<Rightarrow> ref \<Rightarrow> error + pyval dict" where
  "get_frame h r =
     (if r < length h then (case h ! r of Frame d \<Rightarrow> Inr d | _ \<Rightarrow> Inl TypeError)
      else Inl TypeError)"

definition get_results :: "store \<Rightarrow> ref \<Rightarrow> error + pyval dict list" where
  "get_results h r =
     (if r < length h then (case h ! r of Results rs \<Rightarrow> Inr rs | _ \<Rightarrow> Inl TypeError)
      else Inl TypeError)"

text \<open>
  Modelled from the spec: the class \<^verbatim>\<open>DialogueState\<close>, with the fields that the policy reads.
  The frame maps a slot name to its value, which is filled when it is truthy; an item of
  the database result maps a slot name to a value; the item in focus is an item or \<^verbatim>\<open>None\<close>.
  \<open>agent_offer_state\<close> is the ordered list of the active state names, the list that
  \<^verbatim>\<open>ast.literal_eval(dialogue_state._agent_offer_state())\<close> evaluates to: the method is the
  state tracker's, so its result is a field.
\<close>

record DialogueState =
  last_user_dacts :: "UserIntents DialogueAct list"
  last_agent_dacts :: "AgentIntents DialogueAct list"
  agent_requestable :: ref
  frame_CIN :: ref
  slot_left_unasked :: int
  database_result :: ref
  item_in_focus :: "pyval dict option"
  agent_req_filled :: bool
  agent_should_make_offer :: bool
  agent_offer_state :: "string list"

text \<open>
  The policy object: \<^verbatim>\<open>self.isBot\<close> and \<^verbatim>\<open>self.new_user\<close>. \<^verbatim>\<open>self.ontology\<close> is stored by
  the constructor and never read.
\<close>

record DialoguePolicy =
  isBot :: bool
  new_user :: bool

subsection \<open>The random source\<close>

text \<open>
  The module \<^verbatim>\<open>random\<close> is a global generator. Its outputs are an infinite sequence of
  natural numbers; a draw below \<open>n\<close> takes the head of the sequence modulo \<open>n\<close>. A world is
  the store together with the generator.
\<close>

type_synonym rng = "nat \<Rightarrow> nat"

type_synonym world = "store \<times> rng"

definition randbelow :: "nat \<Rightarrow> rng \<Rightarrow> nat \<times> rng" where
  "randbelow n g = (g 0 mod n, \<lambda>k. g (Suc k))"

definition swap :: "nat \<Rightarrow> nat \<Rightarrow> 'a list \<Rightarrow> 'a list" where
  "swap i j xs = xs[i := xs ! j, j := xs ! i]"

text \<open>
  \<^verbatim>\<open>random.shuffle(x)\<close>: for \<open>i\<close> from \<open>len(x) - 1\<close> down to \<open>1\<close>, draw \<open>j\<close> below \<open>i + 1\<close> and
  exchange \<open>x[i]\<close> and \<open>x[j]\<close>.
\<close>

fun shuffle_loop :: "nat \<Rightarrow> 'a list \<Rightarrow> rng \<Rightarrow> 'a list \<times> rng" where
  "shuffle_loop 0 xs g = (xs, g)"
| "shuffle_loop (Suc i) xs g =
     (case randbelow (Suc i + 1) g of (j, g') \<Rightarrow> shuffle_loop i (swap (Suc i) j xs) g')"

definition shuffle :: "'a list \<Rightarrow> rng \<Rightarrow> 'a list \<times> rng" where
  "shuffle xs g = shuffle_loop (length xs - 1) xs g"

text \<open>\<^verbatim>\<open>random.shuffle\<close> on a list object of the store: the object is updated in place.\<close>

fun shuffle_ref :: "ref \<Rightarrow> world \<Rightarrow> (error + unit) \<times> world" where
  "shuffle_ref r (h, g) =
     (case get_list h r of
        Inl e \<Rightarrow> (Inl e, (h, g))
      | Inr xs \<Rightarrow> (case shuffle xs g of (ys, g') \<Rightarrow> (Inr (), (h[r := StrList ys], g'))))"

text \<open>\<^verbatim>\<open>deepcopy\<close> of a list of strings: a new object with the same elements.\<close>

fun deepcopy_list :: "ref \<Rightarrow> world \<Rightarrow> (error + ref) \<times> world" where
  "deepcopy_list r (h, g) =
     (case get_list h r of
        Inl e \<Rightarrow> (Inl e, (h, g))
      | Inr xs \<Rightarrow> (case alloc (StrList xs) h of (r', h') \<Rightarrow> (Inr r', (h', g))))"

text \<open>\<^verbatim>\<open>xs[0]\<close> raises \<^verbatim>\<open>IndexError\<close> on the empty list.\<close>

definition item0 :: "'a list \<Rightarrow> error + 'a" where
  "item0 xs = (case xs of [] \<Rightarrow> Inl IndexError | x # _ \<Rightarrow> Inr x)"

definition list_item0 :: "store \<Rightarrow> ref \<Rightarrow> error + string" where
  "list_item0 h r = (case get_list h r of Inl e \<Rightarrow> Inl e | Inr xs \<Rightarrow> item0 xs)"

text \<open>
  \<^verbatim>\<open>item[k]\<close> for an item that may be \<^verbatim>\<open>None\<close>: subscripting \<^verbatim>\<open>None\<close> raises \<^verbatim>\<open>TypeError\<close>.
\<close>

definition subscript :: "pyval dict option \<Rightarrow> string \<Rightarrow> error + pyval" where
  "subscript item k = (case item of None \<Rightarrow> Inl TypeError | Some d \<Rightarrow> dict_getitem d k)"

section \<open>The action handlers\<close>

text \<open>
  A handler takes the snapshot and the reference \<open>slots\<close> to the list that \<open>next_action\<close>
  copied from the requestable slots. It returns dialogue acts or raises, and leaves a world.
\<close>

type_synonym handler =
  "Slots \<Rightarrow> DialogueState \<Rightarrow> ref \<Rightarrow> world \<Rightarrow> (error + agent_dacts) \<times> world"

fun finish :: handler where
  "finish sl dialogue_state slots w = (Inr [DialogueAct A_BYE []], w)"

fun no_results :: handler where
  "no_results sl dialogue_state slots w = (Inr [DialogueAct A_NO_RESULTS []], w)"

text \<open>
  The comprehension that builds \<^verbatim>\<open>CIN_slots\<close>: the keys of the frame, in order, whose entry
  is not truthy and that are not the title slot.
\<close>

fun CIN_slots_of :: "Slots \<Rightarrow> pyval dict \<Rightarrow> string list \<Rightarrow> error + string list" where
  "CIN_slots_of sl frame [] = Inr []"
| "CIN_slots_of sl frame (key # ks) =
     (case dict_getitem frame key of
        Inl e \<Rightarrow> Inl e
      | Inr v \<Rightarrow>
          (case CIN_slots_of sl frame ks of
             Inl e \<Rightarrow> Inl e
           | Inr rest \<Rightarrow> Inr (if \<not> truthy v \<and> key \<noteq> TITLE sl then key # rest else rest)))"

text \<open>
  The loop of the branch for \<^verbatim>\<open>agent_req_filled\<close> false: the parameters of the \<^verbatim>\<open>ELICIT\<close> act
  after the loop. The loop reads \<^verbatim>\<open>frame_CIN[slot]\<close> for each slot in turn and stops at the
  first whose entry is not truthy.
\<close>

fun elicit_loop :: "pyval dict \<Rightarrow> string list \<Rightarrow> error + ItemConstraint list" where
  "elicit_loop frame [] = Inr []"
| "elicit_loop frame (s # rest) =
     (case dict_getitem frame s of
        Inl e \<Rightarrow> Inl e
      | Inr v \<Rightarrow>
          if \<not> truthy v then Inr [ItemConstraint s EQ (PStr [])]
          else elicit_loop frame rest)"

fun elicit :: handler where
  "elicit sl dialogue_state slots (h, g) =
     (case get_frame h (frame_CIN dialogue_state) of
        Inl e \<Rightarrow> (Inl e, (h, g))
      | Inr frame \<Rightarrow>
     (case CIN_slots_of sl frame (keys frame) of
        Inl e \<Rightarrow> (Inl e, (h, g))
      | Inr cin \<Rightarrow>
     (case alloc (StrList cin) h of (CIN_slots, h1) \<Rightarrow>
      if int (length cin) \<ge> slot_left_unasked dialogue_state then
        (case get_results h1 (database_result dialogue_state) of
           Inl e \<Rightarrow> (Inl e, (h1, g))
         | Inr db \<Rightarrow>
        (let count_act = DialogueAct A_COUNT_RESULTS
                           [ItemConstraint ''count'' EQ (PInt (int (length db)))]
         in if agent_req_filled dialogue_state then
              (case shuffle_ref CIN_slots (h1, g) of
                 (Inl e, w2) \<Rightarrow> (Inl e, w2)
               | (Inr u, (h2, g2)) \<Rightarrow>
                   (case list_item0 h2 CIN_slots of
                      Inl e \<Rightarrow> (Inl e, (h2, g2))
                    | Inr s \<Rightarrow>
                        (Inr [count_act,
                              DialogueAct A_ELICIT [ItemConstraint s EQ (PStr [])]],
                         (h2, g2))))
            else
              (case shuffle_ref slots (h1, g) of
                 (Inl e, w2) \<Rightarrow> (Inl e, w2)
               | (Inr u, (h2, g2)) \<Rightarrow>
                   (case get_list h2 slots of
                      Inl e \<Rightarrow> (Inl e, (h2, g2))
                    | Inr shuffled \<Rightarrow>
                        (case elicit_loop frame shuffled of
                           Inl e \<Rightarrow> (Inl e, (h2, g2))
                         | Inr ps \<Rightarrow>
                             (Inr [count_act, DialogueAct A_ELICIT ps], (h2, g2)))))))
      else (Inr [], (h1, g)))))"

fun recommend :: handler where
  "recommend sl dialogue_state slots (h, g) =
     (case (if agent_should_make_offer dialogue_state
            then Inr (item_in_focus dialogue_state)
            else (case get_results h (database_result dialogue_state) of
                    Inl e \<Rightarrow> Inl e
                  | Inr db \<Rightarrow> (case item0 db of Inl e \<Rightarrow> Inl e | Inr it \<Rightarrow> Inr (Some it))))
      of Inl e \<Rightarrow> (Inl e, (h, g))
       | Inr item \<Rightarrow>
           (case subscript item (TITLE sl) of
              Inl e \<Rightarrow> (Inl e, (h, g))
            | Inr t \<Rightarrow>
                (Inr [DialogueAct A_RECOMMEND [ItemConstraint (TITLE sl) EQ t]], (h, g))))"

text \<open>
  The inner loop of \<^verbatim>\<open>inform_or_recommend\<close>: the parameters appended to the \<^verbatim>\<open>INFORM\<close> act,
  one for each parameter of the user's act.
\<close>

fun inform_params ::
  "Slots \<Rightarrow> pyval dict option \<Rightarrow> ItemConstraint list \<Rightarrow> error + ItemConstraint list" where
  "inform_params sl item [] = Inr []"
| "inform_params sl item (param # rest) =
     (case (if slot param \<noteq> MORE_INFO sl then subscript item (slot param)
            else subscript item (TITLE sl)) of
        Inl e \<Rightarrow> Inl e
      | Inr v \<Rightarrow>
          (case inform_params sl item rest of
             Inl e \<Rightarrow> Inl e
           | Inr ps \<Rightarrow> Inr (ItemConstraint (slot param) EQ v # ps)))"

text \<open>The \<^verbatim>\<open>INFORM\<close> act built for one user act with the intent \<^verbatim>\<open>INQUIRE\<close>.\<close>

definition inform_act ::
  "Slots \<Rightarrow> pyval dict option \<Rightarrow> UserIntents DialogueAct \<Rightarrow> error + AgentIntents DialogueAct"
  where
  "inform_act sl item user_dact =
     (case inform_params sl item (params user_dact) of
        Inl e \<Rightarrow> Inl e
      | Inr ps \<Rightarrow>
          if length ps = 0 then
            (case subscript item (TITLE sl) of
               Inl e \<Rightarrow> Inl e
             | Inr t \<Rightarrow> Inr (DialogueAct A_INFORM [ItemConstraint ''deny'' EQ t]))
          else Inr (DialogueAct A_INFORM ps))"

fun inform_loop ::
  "Slots \<Rightarrow> pyval dict option \<Rightarrow> UserIntents DialogueAct list \<Rightarrow> error + agent_dacts" where
  "inform_loop sl item [] = Inr []"
| "inform_loop sl item (user_dact # rest) =
     (if intent user_dact = U_INQUIRE then
        (case inform_act sl item user_dact of
           Inl e \<Rightarrow> Inl e
         | Inr a \<Rightarrow>
             (case inform_loop sl item rest of Inl e \<Rightarrow> Inl e | Inr as \<Rightarrow> Inr (a # as)))
      else if intent user_dact = U_ACCEPT then
        (case subscript item (TITLE sl) of
           Inl e \<Rightarrow> Inl e
         | Inr t \<Rightarrow>
             (case inform_loop sl item rest of
                Inl e \<Rightarrow> Inl e
              | Inr as \<Rightarrow>
                  Inr (DialogueAct A_CONTINUE_RECOMMENDATION
                         [ItemConstraint (TITLE sl) EQ t] # as)))
      else inform_loop sl item rest)"

fun inform_or_recommend :: handler where
  "inform_or_recommend sl dialogue_state slots w =
     (inform_loop sl (item_in_focus dialogue_state) (last_user_dacts dialogue_state), w)"

fun choose_elicit_or_recommend :: handler where
  "choose_elicit_or_recommend sl dialogue_state slots w =
     (case elicit sl dialogue_state slots w of
        (Inl e, w1) \<Rightarrow> (Inl e, w1)
      | (Inr agent_dacts, w1) \<Rightarrow>
          if agent_dacts \<noteq> [] then (Inr agent_dacts, w1)
          else recommend sl dialogue_state slots w1)"

section \<open>The dispatcher\<close>

definition possible_actions_per_state :: "(string \<times> handler) list" where
  "possible_actions_per_state =
     [(''agent_req_filled'', elicit),
      (''agent_made_partial_offer'', choose_elicit_or_recommend),
      (''agent_should_make_offer'', recommend),
      (''agent_made_offer'', inform_or_recommend),
      (''agent_offer_no_results'', no_results),
      (''at_terminal_state'', finish)]"

text \<open>
  The loop over the active state names: the first handler with a non-empty result decides;
  after the loop the act is \<^verbatim>\<open>CANT_HELP\<close>.
\<close>

fun dispatch ::
  "Slots \<Rightarrow> DialogueState \<Rightarrow> ref \<Rightarrow> string list \<Rightarrow> world \<Rightarrow> (error + agent_dacts) \<times> world"
  where
  "dispatch sl dialogue_state slots [] w = (Inr [DialogueAct A_CANT_HELP []], w)"
| "dispatch sl dialogue_state slots (state_name # rest) w =
     (case map_of possible_actions_per_state state_name of
        None \<Rightarrow> dispatch sl dialogue_state slots rest w
      | Some action \<Rightarrow>
          (case action sl dialogue_state slots w of
             (Inl e, w1) \<Rightarrow> (Inl e, w1)
           | (Inr agent_dacts, w1) \<Rightarrow>
               if agent_dacts \<noteq> [] then (Inr agent_dacts, w1)
               else dispatch sl dialogue_state slots rest w1))"

text \<open>The three guards of \<^verbatim>\<open>next_action\<close> that come before the dispatch.\<close>

definition restart_requested :: "DialogueState \<Rightarrow> bool \<Rightarrow> bool" where
  "restart_requested dialogue_state restart =
     (restart \<or> U_RESTART \<in> set (map intent (last_user_dacts dialogue_state)))"

definition conversation_start :: "DialogueState \<Rightarrow> bool \<Rightarrow> bool" where
  "conversation_start dialogue_state restart =
     (\<not> restart \<and>
      (last_user_dacts dialogue_state = [] \<or> last_agent_dacts dialogue_state = [] \<or>
       list_all (\<lambda>dact. U_HI = intent dact) (last_user_dacts dialogue_state)))"

definition acknowledged_welcome :: "DialogueState \<Rightarrow> bool" where
  "acknowledged_welcome dialogue_state =
     (list_ex (\<lambda>user_da. intent user_da = U_ACKNOWLEDGE \<or> intent user_da = U_UNK)
        (last_user_dacts dialogue_state) \<and>
      list_ex (\<lambda>agent_da. A_WELCOME = intent agent_da) (last_agent_dacts dialogue_state))"

fun next_action ::
  "DialoguePolicy \<Rightarrow> Slots \<Rightarrow> DialogueState \<Rightarrow> 'c \<Rightarrow> bool \<Rightarrow> world
     \<Rightarrow> (error + agent_dacts) \<times> world" where
  "next_action self sl dialogue_state dialogue_context restart w =
     (case deepcopy_list (agent_requestable dialogue_state) w of
        (Inl e, w1) \<Rightarrow> (Inl e, w1)
      | (Inr slots, (h1, g1)) \<Rightarrow>
          if restart_requested dialogue_state restart then
            (case list_item0 h1 slots of
               Inl e \<Rightarrow> (Inl e, (h1, g1))
             | Inr slot0 \<Rightarrow>
                 (Inr [DialogueAct A_RESTART [],
                       DialogueAct A_ELICIT [ItemConstraint slot0 EQ (PStr [])]], (h1, g1)))
          else if conversation_start dialogue_state restart then
            (Inr [DialogueAct A_WELCOME
                    [ItemConstraint ''new_user'' EQ (PBool (new_user self)),
                     ItemConstraint ''is_bot'' EQ (PBool (isBot self))]], (h1, g1))
          else if acknowledged_welcome dialogue_state then
            (case list_item0 h1 slots of
               Inl e \<Rightarrow> (Inl e, (h1, g1))
             | Inr slot0 \<Rightarrow>
                 (Inr [DialogueAct A_ELICIT [ItemConstraint slot0 EQ (PStr [])]], (h1, g1)))
          else dispatch sl dialogue_state slots (agent_offer_state dialogue_state) (h1, g1))"

section \<open>The example aggregator\<close>

text \<open>
  The string methods of \<^verbatim>\<open>_generate_examples\<close>. Whitespace is what \<^verbatim>\<open>str.isspace\<close> accepts
  among the code points below 256.
\<close>

definition isspace :: "char \<Rightarrow> bool" where
  "isspace c = (of_char c \<in> set [9, 10, 11, 12, 13, 28, 29, 30, 31, 32, 133, 160 :: nat])"

definition strip :: "string \<Rightarrow> string" where
  "strip s = rev (dropWhile isspace (rev (dropWhile isspace s)))"

text \<open>\<^verbatim>\<open>s.split(c)\<close> for a separator of one character: at least one fragment.\<close>

fun split_sep :: "char \<Rightarrow> string \<Rightarrow> string list" where
  "split_sep c [] = [[]]"
| "split_sep c (x # xs) =
     (if x = c then [] # split_sep c xs
      else (case split_sep c xs of [] \<Rightarrow> [[x]] | w # ws \<Rightarrow> (x # w) # ws))"

text \<open>\<^verbatim>\<open>s.split()\<close>: the maximal runs of characters that are not whitespace.\<close>

fun split_ws_acc :: "string \<Rightarrow> string \<Rightarrow> string list" where
  "split_ws_acc cur [] = (if cur = [] then [] else [rev cur])"
| "split_ws_acc cur (x # xs) =
     (if isspace x then (if cur = [] then split_ws_acc [] xs else rev cur # split_ws_acc [] xs)
      else split_ws_acc (x # cur) xs)"

definition split_ws :: "string \<Rightarrow> string list" where
  "split_ws s = split_ws_acc [] s"

text \<open>The f-string \<^verbatim>\<open>f"'{x}'"\<close>: the string between two single quotes.\<close>

definition quote :: "string \<Rightarrow> string" where
  "quote x = CHR 0x27 # x @ [CHR 0x27]"

fun join :: "string \<Rightarrow> string list \<Rightarrow> string" where
  "join sep [] = []"
| "join sep [x] = x"
| "join sep (x # y # ys) = x @ sep @ join sep (y # ys)"

text \<open>
  \<^verbatim>\<open>list(set(xs))\<close>: the distinct elements in the iteration order of the set, which depends
  on the hashes of the strings. The order is a second sequence of draws \<open>ho\<close> that permutes
  the distinct elements.
\<close>

definition list_of_set :: "rng \<Rightarrow> 'a list \<Rightarrow> 'a list" where
  "list_of_set ho xs = fst (shuffle (remdups xs) ho)"

text \<open>
  \<^verbatim>\<open>random.sample(population, k)\<close>: \<open>k\<close> elements at distinct positions, drawn from a pool
  from which each drawn element is removed; \<^verbatim>\<open>ValueError\<close> when the population is smaller
  than \<open>k\<close>. (For a large population the library draws positions and rejects those already
  drawn; the possible results are the same.)
\<close>

fun sample_loop :: "nat \<Rightarrow> 'a list \<Rightarrow> nat \<Rightarrow> rng \<Rightarrow> 'a list \<times> rng" where
  "sample_loop 0 pool m g = ([], g)"
| "sample_loop (Suc k) pool m g =
     (case randbelow m g of (j, g') \<Rightarrow>
        (case sample_loop k (pool[j := pool ! (m - 1)]) (m - 1) g' of
           (rest, g'') \<Rightarrow> (pool ! j # rest, g'')))"

definition sample :: "'a list \<Rightarrow> nat \<Rightarrow> rng \<Rightarrow> (error + 'a list) \<times> rng" where
  "sample population k g =
     (if k \<le> length population then
        (case sample_loop k population (length population) g of (r, g') \<Rightarrow> (Inr r, g'))
      else (Inl ValueError, g))"

text \<open>
  The loop over the database results: it extends \<^verbatim>\<open>examples\<close> by the quoted fragments of
  each result, and stops after the first result that brings the distinct examples above 20.
\<close>

fun collect_examples :: "pyval dict list \<Rightarrow> string \<Rightarrow> string list \<Rightarrow> error + string list" where
  "collect_examples [] slot_name examples = Inr examples"
| "collect_examples (result # rest) slot_name examples =
     (case dict_getitem result slot_name of
        Inl e \<Rightarrow> Inl e
      | Inr v \<Rightarrow>
          (case v of
             PStr s \<Rightarrow>
               (let temp_result = map strip (split_sep CHR '','' s);
                    examples' = examples @ map quote (filter (\<lambda>x. x \<notin> set examples) temp_result)
                in if length (remdups examples') > 20 then Inr examples'
                   else collect_examples rest slot_name examples')
           | _ \<Rightarrow> Inl AttributeError))"

text \<open>
  \<^verbatim>\<open>_generate_examples\<close>. The result is \<open>None\<close> when the function ends without a
  \<^verbatim>\<open>return\<close> statement.
\<close>

definition generate_examples ::
  "pyval dict list \<Rightarrow> string \<Rightarrow> rng \<Rightarrow> rng \<Rightarrow> (error + string option) \<times> rng" where
  "generate_examples db slot_name ho g =
     (case collect_examples db slot_name [] of
        Inl e \<Rightarrow> (Inl e, g)
      | Inr examples0 \<Rightarrow>
          if examples0 \<noteq> [] then
            (case shuffle (list_of_set ho examples0) g of (examples, g1) \<Rightarrow>
               if length examples = 1 then
                 (case item0 examples of
                    Inl e \<Rightarrow> (Inl e, g1)
                  | Inr x \<Rightarrow> (Inr (Some x), g1))
               else
                 (let sub_example = filter (\<lambda>x. length (split_ws x) = 2) examples
                  in if length sub_example \<ge> 2 then
                       (case sample sub_example 2 g1 of
                          (Inl e, g2) \<Rightarrow> (Inl e, g2)
                        | (Inr two, g2) \<Rightarrow> (Inr (Some (join '' or '' two)), g2))
                     else
                       (case sample examples 2 g1 of
                          (Inl e, g2) \<Rightarrow> (Inl e, g2)
                        | (Inr two, g2) \<Rightarrow> (Inr (Some (join '' or '' two)), g2))))
          else (Inr None, g))"

section \<open>A concrete snapshot\<close>

text \<open>
  A snapshot in the middle of a conversation, used to evaluate the policy: two requestable
  slots, a frame with no slot filled, one database result.
\<close>

definition sl0 :: Slots where
  "sl0 = \<lparr>TITLE = ''title'', MORE_INFO = ''more_info''\<rparr>"

definition policy0 :: DialoguePolicy where
  "policy0 = \<lparr>isBot = False, new_user = True\<rparr>"

definition store0 :: store where
  "store0 =
     [StrList [''genres'', ''actors''],
      Frame [(''genres'', PNone), (''actors'', PNone), (''title'', PNone)],
      Results [[(''title'', PStr ''Heat''), (''genres'', PStr ''Crime'')]]]"

definition state0 :: DialogueState where
  "state0 =
     \<lparr>last_user_dacts = [DialogueAct (U_other ''REVEAL'') []],
      last_agent_dacts = [DialogueAct A_ELICIT [ItemConstraint ''genres'' EQ (PStr [])]],
      agent_requestable = 0,
      frame_CIN = 1,
      slot_left_unasked = 2,
      database_result = 2,
      item_in_focus = None,
      agent_req_filled = False,
      agent_should_make_offer = False,
      agent_offer_state = [''agent_req_filled'']\<rparr>"

definition rng0 :: rng where
  "rng0 = (\<lambda>k. 0)"

text \<open>Variants of the snapshot and of the store, one for each property below.\<close>

definition store_no_results :: store where
  "store_no_results =
     [StrList [''genres'', ''actors''],
      Frame [(''genres'', PStr ''crime''), (''actors'', PNone), (''title'', PNone)],
      Results []]"

definition item_heat :: "pyval dict" where
  "item_heat = [(''title'', PStr ''Heat''), (''genres'', PStr ''Crime'')]"

definition state_inquire :: DialogueState where
  "state_inquire =
     state0\<lparr>last_user_dacts :=
               [DialogueAct U_INQUIRE [],
                DialogueAct U_INQUIRE
                  [ItemConstraint ''genres'' EQ (PStr []),
                   ItemConstraint ''more_info'' EQ (PStr [])],
                DialogueAct U_ACCEPT []],
            item_in_focus := Some item_heat,
            agent_offer_state := [''agent_made_offer'']\<rparr>"

definition state_inquire_absent :: DialogueState where
  "state_inquire_absent =
     state0\<lparr>last_user_dacts :=
               [DialogueAct U_INQUIRE [ItemConstraint ''director'' EQ (PStr [])]],
            item_in_focus := Some item_heat,
            agent_offer_state := [''agent_made_offer'']\<rparr>"

definition store_filled :: store where
  "store_filled =
     [StrList [''genres'', ''actors''],
      Frame [(''genres'', PStr ''crime''), (''actors'', PStr ''De Niro''),
             (''year'', PNone), (''title'', PNone)],
      Results [[(''title'', PStr ''Heat''), (''genres'', PStr ''Crime'')]],
      StrList [''genres'', ''actors'']]"

definition state_filled :: DialogueState where
  "state_filled = state0\<lparr>slot_left_unasked := 1\<rparr>"

definition store_absent :: store where
  "store_absent =
     [StrList [''genres'', ''actors''],
      Frame [(''genres'', PStr ''crime''), (''year'', PNone), (''title'', PNone)],
      Results [[(''title'', PStr ''Heat''), (''genres'', PStr ''Crime'')]],
      StrList [''genres'', ''actors'']]"

definition results_action :: "pyval dict list" where
  "results_action =
     [[(''title'', PStr ''Heat''), (''genre'', PStr ''Action'')],
      [(''title'', PStr ''Ronin''), (''genre'', PStr '' Action , Action'')]]"

definition state_decline :: DialogueState where
  "state_decline =
     state0\<lparr>slot_left_unasked := 3,
            agent_offer_state := [''agent_req_filled'', ''agent_lost'', ''agent_made_offer'']\<rparr>"

section \<open>Well-formed snapshots\<close>

text \<open>
  What the handlers read without a test, as conditions on the snapshot. They are the
  invariants that the state tracker has to keep for the policy not to raise.

  \<^item> \<open>elicit_ok\<close>: the frame has an entry for every requestable slot; and when
    \<open>agent_req_filled\<close> is set, the threshold is positive or some slot other than the title
    is unfilled, so that \<open>CIN_slots\<close> is not empty when its first element is read.
  \<^item> \<open>recommend_ok\<close>: the item that \<open>recommend\<close> selects exists and has a title. For
    \<open>agent_should_make_offer\<close> false it is the first database result, so the database result
    is not empty.
  \<^item> \<open>inform_ok\<close>: the item in focus exists and has a title and every slot that an
    \<open>INQUIRE\<close> act requests, the more-info slot apart.
  \<^item> \<open>well_formed\<close>: the three references of the snapshot hold objects of their kind, the
    list of requestable slots is not empty, and each of the conditions above holds when an
    active state name leads to the handler it is about.
\<close>

definition elicit_ok :: "Slots \<Rightarrow> pyval dict \<Rightarrow> string list \<Rightarrow> DialogueState \<Rightarrow> bool" where
  "elicit_ok sl frame ss st =
     (set ss \<subseteq> set (keys frame) \<and>
      (agent_req_filled st \<longrightarrow>
         (case CIN_slots_of sl frame (keys frame) of
            Inl e \<Rightarrow> False
          | Inr cin \<Rightarrow> 0 < slot_left_unasked st \<or> cin \<noteq> [])))"

definition recommend_ok :: "Slots \<Rightarrow> pyval dict list \<Rightarrow> DialogueState \<Rightarrow> bool" where
  "recommend_ok sl db st =
     (case (if agent_should_make_offer st then item_in_focus st
            else (case db of [] \<Rightarrow> None | it # _ \<Rightarrow> Some it)) of
        None \<Rightarrow> False
      | Some item \<Rightarrow> TITLE sl \<in> set (keys item))"

definition inform_ok :: "Slots \<Rightarrow> DialogueState \<Rightarrow> bool" where
  "inform_ok sl st =
     (case item_in_focus st of
        None \<Rightarrow> False
      | Some item \<Rightarrow>
          TITLE sl \<in> set (keys item) \<and>
          (\<forall>u \<in> set (last_user_dacts st). intent u = U_INQUIRE \<longrightarrow>
             (\<forall>param \<in> set (params u).
                slot param \<noteq> MORE_INFO sl \<longrightarrow> slot param \<in> set (keys item))))"

definition well_formed :: "Slots \<Rightarrow> store \<Rightarrow> DialogueState \<Rightarrow> bool" where
  "well_formed sl h st =
     (case get_list h (agent_requestable st) of
        Inl e \<Rightarrow> False
      | Inr ss \<Rightarrow>
          (case get_frame h (frame_CIN st) of
             Inl e \<Rightarrow> False
           | Inr frame \<Rightarrow>
               (case get_results h (database_result st) of
                  Inl e \<Rightarrow> False
                | Inr db \<Rightarrow>
                    (ss \<noteq> [] \<and>
                     (''agent_req_filled'' \<in> set (agent_offer_state st) \<or>
                      ''agent_made_partial_offer'' \<in> set (agent_offer_state st)
                        \<longrightarrow> elicit_ok sl frame ss st) \<and>
                     (''agent_should_make_offer'' \<in> set (agent_offer_state st) \<or>
                      ''agent_made_partial_offer'' \<in> set (agent_offer_state st)
                        \<longrightarrow> recommend_ok sl db st) \<and>
                     (''agent_made_offer'' \<in> set (agent_offer_state st)
                        \<longrightarrow> inform_ok sl st)))))"

section \<open>Objects of the store that a call leaves alone\<close>

text \<open>
  \<open>store_ext n h h'\<close>: the store \<open>h'\<close> has every object of \<open>h\<close> below the reference \<open>n\<close>
  unchanged, and no object was removed.
\<close>

definition store_ext :: "nat \<Rightarrow> store \<Rightarrow> store \<Rightarrow> bool" where
  "store_ext n h h' = (length h \<le> length h' \<and> take n h' = take n h)"


section \<open>Properties of the random source and of the store\<close>

lemma swap_length [simp]: "length (swap i j xs) = length xs"
  by (simp add: swap_def)

lemma swap_mset: "i < length xs \<Longrightarrow> j < length xs \<Longrightarrow> mset (swap i j xs) = mset xs"
  unfolding swap_def by (simp add: mset_swap)

lemma randbelow_less: "0 < n \<Longrightarrow> fst (randbelow n g) < n"
  by (simp add: randbelow_def)

lemma shuffle_loop_mset: "i < length xs \<Longrightarrow> mset (fst (shuffle_loop i xs g)) = mset xs"
proof (induction i arbitrary: xs g)
  case 0
  then show ?case by simp
next
  case (Suc i)
  obtain j g' where r: "randbelow (Suc i + 1) g = (j, g')" by (cases "randbelow (Suc i + 1) g")
  have "j < Suc i + 1" using randbelow_less [of "Suc i + 1" g] r by simp
  with Suc.prems have j: "j < length xs" by simp
  have "mset (fst (shuffle_loop i (swap (Suc i) j xs) g')) = mset (swap (Suc i) j xs)"
    using Suc.prems by (intro Suc.IH) simp
  with r j Suc.prems show ?case by (simp add: swap_mset)
qed

lemma shuffle_mset: "mset (fst (shuffle xs g)) = mset xs"
proof (cases xs)
  case Nil
  then show ?thesis by (simp add: shuffle_def)
next
  case (Cons x ys)
  then show ?thesis unfolding shuffle_def by (intro shuffle_loop_mset) simp
qed

lemma shuffle_set: "set (fst (shuffle xs g)) = set xs"
  using shuffle_mset [of xs g] by (metis set_mset_mset)

lemma shuffle_length: "length (fst (shuffle xs g)) = length xs"
  using shuffle_mset [of xs g] by (metis size_mset)

lemma store_ext_refl: "store_ext n h h"
  by (simp add: store_ext_def)

lemma store_ext_trans: "store_ext n h h1 \<Longrightarrow> store_ext n h1 h2 \<Longrightarrow> store_ext n h h2"
  by (simp add: store_ext_def)

lemma store_ext_append: "n \<le> length h \<Longrightarrow> store_ext n h (h @ xs)"
  by (simp add: store_ext_def)

lemma store_ext_update: "n \<le> r \<Longrightarrow> store_ext n h (h[r := ob])"
  by (simp add: store_ext_def)

lemma elicit_ext:
  assumes "elicit sl st slots (h, g) = (res, (h', g'))" and "n \<le> slots" and "n \<le> length h"
  shows "store_ext n h h'"
  using assms
  by (auto simp: alloc_def Let_def store_ext_def split: sum.splits prod.splits if_splits)


lemma recommend_world: "snd (recommend sl st slots w) = w"
  by (cases w) (auto split: sum.splits)

lemma choose_ext:
  assumes "choose_elicit_or_recommend sl st slots (h, g) = (res, (h', g'))"
    and "n \<le> slots" and "n \<le> length h"
  shows "store_ext n h h'"
proof -
  obtain r1 h1 g1 where e: "elicit sl st slots (h, g) = (r1, (h1, g1))"
    by (metis prod.exhaust)
  have x: "store_ext n h h1" using e assms(2,3) by (rule elicit_ext)
  have "h' = h1"
    using assms(1) e recommend_world [of sl st slots "(h1, g1)"]
    by (auto split: sum.splits if_splits)
  with x show ?thesis by simp
qed

lemma handler_ext:
  assumes "map_of possible_actions_per_state state_name = Some action"
    and "action sl st slots (h, g) = (res, (h', g'))"
    and "n \<le> slots" and "n \<le> length h"
  shows "store_ext n h h'"
proof -
  consider "action = elicit" | "action = choose_elicit_or_recommend" | "action = recommend"
    | "action = inform_or_recommend" | "action = no_results" | "action = finish"
    using assms(1) by (auto simp: possible_actions_per_state_def split: if_splits)
  then show ?thesis
  proof cases
    case 1
    with assms show ?thesis by (auto intro: elicit_ext)
  next
    case 2
    with assms show ?thesis by (auto intro: choose_ext)
  next
    case 3
    with assms(2) recommend_world [of sl st slots "(h, g)"] show ?thesis
      by (simp add: store_ext_refl)
  next
    case 4
    with assms(2) show ?thesis by (auto simp: store_ext_refl)
  next
    case 5
    with assms(2) show ?thesis by (auto simp: store_ext_refl)
  next
    case 6
    with assms(2) show ?thesis by (auto simp: store_ext_refl)
  qed
qed

lemma dispatch_ext:
  "dispatch sl st slots tags (h, g) = (res, (h', g')) \<Longrightarrow> n \<le> slots \<Longrightarrow> n \<le> length h
     \<Longrightarrow> store_ext n h h'"
proof (induction tags arbitrary: h g)
  case Nil
  then show ?case by (simp add: store_ext_refl)
next
  case (Cons state_name rest)
  show ?case
  proof (cases "map_of possible_actions_per_state state_name")
    case None
    with Cons show ?thesis by simp
  next
    case (Some action)
    obtain r1 h1 g1 where a: "action sl st slots (h, g) = (r1, (h1, g1))"
      by (metis prod.exhaust)
    have x: "store_ext n h h1" using Some a Cons.prems(2,3) by (rule handler_ext)
    show ?thesis
    proof (cases "r1 = Inr []")
      case True
      with Cons.prems(1) Some a have "dispatch sl st slots rest (h1, g1) = (res, (h', g'))"
        by simp
      moreover have "n \<le> length h1" using x Cons.prems(3) by (simp add: store_ext_def)
      ultimately have "store_ext n h1 h'" using Cons.prems(2) by (intro Cons.IH)
      with x show ?thesis by (rule store_ext_trans)
    next
      case False
      with Cons.prems(1) Some a have "h' = h1" by (auto split: sum.splits if_splits)
      with x show ?thesis by simp
    qed
  qed
qed

lemma next_action_ext:
  assumes "next_action self sl st ctx restart (h, g) = (res, (h', g'))"
  shows "store_ext (length h) h h'"
proof (cases "get_list h (agent_requestable st)")
  case (Inl e)
  with assms show ?thesis by (simp add: store_ext_refl)
next
  case (Inr xs)
  have a: "store_ext (length h) h (h @ [StrList xs])" by (simp add: store_ext_append)
  show ?thesis
  proof (cases "restart_requested st restart \<or> conversation_start st restart \<or> acknowledged_welcome st")
    case True
    with assms Inr have "h' = h @ [StrList xs]"
      by (auto simp: alloc_def split: sum.splits if_splits)
    with a show ?thesis by simp
  next
    case False
    with assms Inr have "dispatch sl st (length h) (agent_offer_state st) (h @ [StrList xs], g) = (res, (h', g'))"
      by (simp add: alloc_def)
    then have "store_ext (length h) (h @ [StrList xs]) h'"
      by (rule dispatch_ext) simp_all
    with a show ?thesis by (rule store_ext_trans)
  qed
qed

lemma get_list_append:
  "get_list h r = Inr xs \<Longrightarrow> get_list (h @ h2) r = Inr xs"
  by (auto simp: get_list_def nth_append split: if_splits)

lemma get_list_fresh: "get_list (h @ [StrList xs]) (length h) = Inr xs"
  by (simp add: get_list_def)

section \<open>The branches before the dispatch\<close>

text \<open>
  C4. For every snapshot whose list of requestable slots is not empty, if \<open>restart\<close> is true
  or some act of \<open>last_user_dacts\<close> has the intent \<open>RESTART\<close>, \<open>next_action\<close> returns exactly
  the two acts \<open>RESTART\<close> and \<open>ELICIT\<close> with the single constraint that the first requestable
  slot equals the empty string, whatever the other fields of the snapshot, the policy and
  the random source are.
\<close>

theorem restart_acts:
  assumes "get_list h (agent_requestable st) = Inr (slot0 # others)"
    and "restart \<or> U_RESTART \<in> set (map intent (last_user_dacts st))"
  shows "fst (next_action self sl st ctx restart (h, g)) =
           Inr [DialogueAct A_RESTART [],
                DialogueAct A_ELICIT [ItemConstraint slot0 EQ (PStr [])]]"
  using assms
  by (simp add: alloc_def restart_requested_def list_item0_def get_list_fresh item0_def)

text \<open>
  The theorem at the concrete snapshot, once with the flag \<open>restart\<close> and once with a user
  act of intent \<open>RESTART\<close> in second position.
\<close>

theorem restart_acts_witness:
  "fst (next_action policy0 sl0 state0 () True (store0, rng0)) =
     Inr [DialogueAct A_RESTART [],
          DialogueAct A_ELICIT [ItemConstraint ''genres'' EQ (PStr [])]]
   \<and> fst (next_action policy0 sl0
            (state0\<lparr>last_user_dacts := [DialogueAct U_ACCEPT [], DialogueAct U_RESTART []]\<rparr>)
            () False (store0, rng0)) =
     Inr [DialogueAct A_RESTART [],
          DialogueAct A_ELICIT [ItemConstraint ''genres'' EQ (PStr [])]]"
proof -
  have a: "get_list store0 (agent_requestable state0) = Inr (''genres'' # [''actors''])"
    by (simp add: get_list_def store0_def state0_def)
  have b: "get_list store0 (agent_requestable
              (state0\<lparr>last_user_dacts := [DialogueAct U_ACCEPT [], DialogueAct U_RESTART []]\<rparr>))
            = Inr (''genres'' # [''actors''])"
    by (simp add: get_list_def store0_def state0_def)
  show ?thesis
    using restart_acts [OF a, of True policy0 sl0 "()" rng0]
      restart_acts [OF b, of False policy0 sl0 "()" rng0]
    by simp
qed

text \<open>
  C8. For every snapshot, with \<open>restart\<close> false and no user act of intent \<open>RESTART\<close>: if
  \<open>last_user_dacts\<close> is empty, or \<open>last_agent_dacts\<close> is empty, or every user act is a
  greeting, then \<open>next_action\<close> returns exactly one \<open>WELCOME\<close> act, whose two constraints
  carry the flags \<open>new_user\<close> and \<open>isBot\<close> of the policy.
\<close>

theorem start_welcome:
  assumes "get_list h (agent_requestable st) = Inr xs"
    and "\<not> restart" and "U_RESTART \<notin> set (map intent (last_user_dacts st))"
    and "last_user_dacts st = [] \<or> last_agent_dacts st = [] \<or>
         (\<forall>dact \<in> set (last_user_dacts st). intent dact = U_HI)"
  shows "fst (next_action self sl st ctx restart (h, g)) =
           Inr [DialogueAct A_WELCOME
                  [ItemConstraint ''new_user'' EQ (PBool (new_user self)),
                   ItemConstraint ''is_bot'' EQ (PBool (isBot self))]]"
proof -
  have "conversation_start st restart"
    using assms(2,4) by (auto simp: conversation_start_def list_all_iff)
  moreover have "\<not> restart_requested st restart"
    using assms(2,3) by (simp add: restart_requested_def)
  ultimately show ?thesis
    using assms(1) by (simp add: alloc_def)
qed


text \<open>The theorem at the concrete snapshot without user acts.\<close>

theorem start_welcome_witness:
  "fst (next_action policy0 sl0 (state0\<lparr>last_user_dacts := []\<rparr>) () False (store0, rng0)) =
     Inr [DialogueAct A_WELCOME
            [ItemConstraint ''new_user'' EQ (PBool True),
             ItemConstraint ''is_bot'' EQ (PBool False)]]"
proof -
  have a: "get_list store0 (agent_requestable (state0\<lparr>last_user_dacts := []\<rparr>))
             = Inr [''genres'', ''actors'']"
    by (simp add: get_list_def store0_def state0_def)
  have b: "\<not> False" by simp
  have c: "U_RESTART \<notin> set (map intent (last_user_dacts (state0\<lparr>last_user_dacts := []\<rparr>)))"
    by simp
  have d: "last_user_dacts (state0\<lparr>last_user_dacts := []\<rparr>) = [] \<or>
           last_agent_dacts (state0\<lparr>last_user_dacts := []\<rparr>) = [] \<or>
           (\<forall>dact \<in> set (last_user_dacts (state0\<lparr>last_user_dacts := []\<rparr>)). intent dact = U_HI)"
    by simp
  show ?thesis
    using start_welcome [OF a b c d, of policy0 sl0 "()" rng0]
    by (simp add: policy0_def)
qed



subsection \<open>The four courses of \<open>next_action\<close>\<close>

lemma list_item0_fresh: "list_item0 (h @ [StrList xs]) (length h) = item0 xs"
  by (simp add: list_item0_def get_list_def)

lemma next_action_restart:
  assumes "get_list h (agent_requestable st) = Inr xs" and "restart_requested st restart"
  shows "next_action self sl st ctx restart (h, g) =
           (case item0 xs of
              Inl e \<Rightarrow> Inl e
            | Inr slot0 \<Rightarrow>
                Inr [DialogueAct A_RESTART [],
                     DialogueAct A_ELICIT [ItemConstraint slot0 EQ (PStr [])]],
            (h @ [StrList xs], g))"
  using assms by (simp add: alloc_def list_item0_fresh split: sum.splits)

lemma next_action_start:
  assumes "get_list h (agent_requestable st) = Inr xs" and "\<not> restart_requested st restart"
    and "conversation_start st restart"
  shows "next_action self sl st ctx restart (h, g) =
           (Inr [DialogueAct A_WELCOME
                   [ItemConstraint ''new_user'' EQ (PBool (new_user self)),
                    ItemConstraint ''is_bot'' EQ (PBool (isBot self))]],
            (h @ [StrList xs], g))"
  using assms by (simp add: alloc_def)

lemma next_action_acknowledged:
  assumes "get_list h (agent_requestable st) = Inr xs" and "\<not> restart_requested st restart"
    and "\<not> conversation_start st restart" and "acknowledged_welcome st"
  shows "next_action self sl st ctx restart (h, g) =
           (case item0 xs of
              Inl e \<Rightarrow> Inl e
            | Inr slot0 \<Rightarrow> Inr [DialogueAct A_ELICIT [ItemConstraint slot0 EQ (PStr [])]],
            (h @ [StrList xs], g))"
  using assms by (simp add: alloc_def list_item0_fresh split: sum.splits)

lemma next_action_dispatch:
  assumes "get_list h (agent_requestable st) = Inr xs" and "\<not> restart_requested st restart"
    and "\<not> conversation_start st restart" and "\<not> acknowledged_welcome st"
  shows "next_action self sl st ctx restart (h, g) =
           dispatch sl st (length h) (agent_offer_state st) (h @ [StrList xs], g)"
  using assms by (simp add: alloc_def)

lemma next_action_no_list:
  assumes "get_list h (agent_requestable st) = Inl e"
  shows "next_action self sl st ctx restart (h, g) = (Inl e, (h, g))"
  using assms by simp

text \<open>
  C10. For every snapshot that takes one of the three branches before the dispatch
  (restart, conversation start, acknowledgement after the welcome), \<open>next_action\<close> does not
  consult the random source: the generator comes back as it was, the acts are the same for
  every other generator \<open>g2\<close>, and a second call in the store the first call left returns
  the same acts.
\<close>

theorem pre_dispatch_deterministic:
  assumes pre: "restart_requested st restart \<or> conversation_start st restart \<or>
           acknowledged_welcome st"
    and call: "next_action self sl st ctx restart (h, g) = (res, (h', g'))"
  shows "g' = g \<and> fst (next_action self sl st ctx restart (h, g2)) = res
         \<and> fst (next_action self sl st ctx restart (h', g2)) = res"
proof (cases "get_list h (agent_requestable st)")
  case (Inl e)
  with call show ?thesis by (simp add: next_action_no_list del: next_action.simps)
next
  case (Inr xs)
  then have x: "get_list (h @ [StrList xs]) (agent_requestable st) = Inr xs"
    by (rule get_list_append)
  consider (a) "restart_requested st restart"
    | (b) "\<not> restart_requested st restart" "conversation_start st restart"
    | (c) "\<not> restart_requested st restart" "\<not> conversation_start st restart"
          "acknowledged_welcome st"
    using pre by blast
  then show ?thesis
  proof cases
    case a
    have "h' = h @ [StrList xs]" "g' = g"
      using call unfolding next_action_restart [OF Inr a] by simp_all
    then show ?thesis
      using call
      by (simp add: next_action_restart [OF Inr a] next_action_restart [OF x a]
            del: next_action.simps)
  next
    case b
    have "h' = h @ [StrList xs]" "g' = g"
      using call unfolding next_action_start [OF Inr b] by simp_all
    then show ?thesis
      using call
      by (simp add: next_action_start [OF Inr b] next_action_start [OF x b]
            del: next_action.simps)
  next
    case c
    have "h' = h @ [StrList xs]" "g' = g"
      using call unfolding next_action_acknowledged [OF Inr c] by simp_all
    then show ?thesis
      using call
      by (simp add: next_action_acknowledged [OF Inr c] next_action_acknowledged [OF x c]
            del: next_action.simps)
  qed
qed


text \<open>
  The theorem at the concrete snapshot after a welcome that the user acknowledged, with
  another generator and in the store that the first call left.
\<close>

theorem pre_dispatch_deterministic_witness:
  "fst (next_action policy0 sl0
          (state0\<lparr>last_user_dacts := [DialogueAct U_ACKNOWLEDGE []],
                  last_agent_dacts := [DialogueAct A_WELCOME []]\<rparr>) () False
          (store0, \<lambda>k. 7)) =
     Inr [DialogueAct A_ELICIT [ItemConstraint ''genres'' EQ (PStr [])]]
   \<and> fst (next_action policy0 sl0
          (state0\<lparr>last_user_dacts := [DialogueAct U_ACKNOWLEDGE []],
                  last_agent_dacts := [DialogueAct A_WELCOME []]\<rparr>) () False
          (store0 @ [StrList [''genres'', ''actors'']], \<lambda>k. 7)) =
     Inr [DialogueAct A_ELICIT [ItemConstraint ''genres'' EQ (PStr [])]]"
proof -
  let ?st = "state0\<lparr>last_user_dacts := [DialogueAct U_ACKNOWLEDGE []],
                    last_agent_dacts := [DialogueAct A_WELCOME []]\<rparr>"
  have pre: "restart_requested ?st False \<or> conversation_start ?st False \<or>
             acknowledged_welcome ?st"
    by (simp add: acknowledged_welcome_def)
  have call: "next_action policy0 sl0 ?st () False (store0, rng0) =
                (Inr [DialogueAct A_ELICIT [ItemConstraint ''genres'' EQ (PStr [])]],
                 (store0 @ [StrList [''genres'', ''actors'']], rng0))"
    by (simp add: acknowledged_welcome_def restart_requested_def conversation_start_def
          state0_def store0_def get_list_def alloc_def list_item0_def item0_def)
  show ?thesis
    using pre_dispatch_deterministic [OF pre call, of "\<lambda>k. 7"] by simp
qed

section \<open>The snapshot after a call\<close>

text \<open>
  C5. A call of \<open>next_action\<close> leaves every object of the caller's store as it was: the
  store after the call begins with the store before it. So the list of requestable slots,
  the frame and the database result of the snapshot read the same after the call as before
  it. The lists that the policy shuffles are the copy of the requestable slots and
  \<open>CIN_slots\<close>, both allocated by the call.
\<close>

theorem next_action_leaves_snapshot:
  assumes "next_action self sl st ctx restart (h, g) = (res, (h', g'))"
  shows "take (length h) h' = h \<and>
         (get_list h (agent_requestable st) = Inr xs \<longrightarrow>
            get_list h' (agent_requestable st) = Inr xs) \<and>
         (get_frame h (frame_CIN st) = Inr frame \<longrightarrow>
            get_frame h' (frame_CIN st) = Inr frame) \<and>
         (get_results h (database_result st) = Inr db \<longrightarrow>
            get_results h' (database_result st) = Inr db)"
proof -
  have e: "length h \<le> length h'" "take (length h) h' = h"
    using next_action_ext [OF assms] by (simp_all add: store_ext_def)
  have n: "h' ! r = h ! r" if "r < length h" for r
    using that e(2) by (metis nth_take)
  show ?thesis
    using e n by (auto simp: get_list_def get_frame_def get_results_def split: if_splits)
qed

text \<open>
  The theorem at the concrete snapshot, in the branch of \<open>elicit\<close> for \<open>agent_req_filled\<close>
  false: the copy of the requestable slots is shuffled into another order, the caller's list
  is not.
\<close>

theorem next_action_leaves_snapshot_witness:
  "fst (next_action policy0 sl0 state0 () False (store0, rng0)) =
     Inr [DialogueAct A_COUNT_RESULTS [ItemConstraint ''count'' EQ (PInt 1)],
          DialogueAct A_ELICIT [ItemConstraint ''actors'' EQ (PStr [])]]
   \<and> fst (snd (next_action policy0 sl0 state0 () False (store0, rng0))) =
     store0 @ [StrList [''actors'', ''genres''], StrList [''genres'', ''actors'']]
   \<and> get_list (fst (snd (next_action policy0 sl0 state0 () False (store0, rng0))))
        (agent_requestable state0) = Inr [''genres'', ''actors'']"
proof -
  let ?call = "next_action policy0 sl0 state0 () False (store0, rng0)"
  have call: "?call = (fst ?call, (fst (snd ?call), snd (snd ?call)))"
    by simp
  have a: "get_list store0 (agent_requestable state0) = Inr [''genres'', ''actors'']"
    by (simp add: get_list_def store0_def state0_def)
  have pre: "\<not> restart_requested state0 False" "\<not> conversation_start state0 False"
    "\<not> acknowledged_welcome state0"
    by (simp_all add: restart_requested_def conversation_start_def acknowledged_welcome_def
          state0_def)
  have sh: "shuffle [''genres'', ''actors''] rng0 = ([''actors'', ''genres''], rng0)"
    by (simp add: shuffle_def randbelow_def swap_def rng0_def)
  have ev: "?call =
     (Inr [DialogueAct A_COUNT_RESULTS [ItemConstraint ''count'' EQ (PInt 1)],
           DialogueAct A_ELICIT [ItemConstraint ''actors'' EQ (PStr [])]],
      (store0 @ [StrList [''actors'', ''genres''], StrList [''genres'', ''actors'']], rng0))"
    unfolding next_action_dispatch [OF a pre]
    by (simp add: state0_def store0_def possible_actions_per_state_def get_frame_def
          get_results_def get_list_def keys_def dict_getitem_def sl0_def alloc_def sh
          list_item0_def item0_def)
  show ?thesis
    using next_action_leaves_snapshot [OF call, of "[''genres'', ''actors'']"] a ev
    by simp
qed

section \<open>The handler \<open>recommend\<close>\<close>

lemma get_results_append:
  "get_results h r = Inr db \<Longrightarrow> get_results (h @ h2) r = Inr db"
  by (auto simp: get_results_def nth_append split: if_splits)

lemma get_frame_append:
  "get_frame h r = Inr d \<Longrightarrow> get_frame (h @ h2) r = Inr d"
  by (auto simp: get_frame_def nth_append split: if_splits)

text \<open>
  C6, as stated, fails: with an empty database result and \<open>agent_should_make_offer\<close> false,
  \<open>recommend\<close> raises the \<open>IndexError\<close> of the read \<^verbatim>\<open>database_result[0]\<close>. The handler has no
  guard and no error of its own that describes the inconsistent state.
\<close>

theorem recommend_no_results_counterexample:
  "recommend sl0 state0 3 (store_no_results, rng0) = (Inl IndexError, (store_no_results, rng0))"
  by (simp add: state0_def store_no_results_def get_results_def item0_def)

text \<open>
  C6, amended. With an empty database result and \<open>agent_should_make_offer\<close> false,
  \<open>recommend\<close> raises \<open>IndexError\<close> and returns no act. With \<open>agent_should_make_offer\<close> true
  it recommends \<open>item_in_focus\<close>, otherwise the first entry of the database result: for a
  selected item with a title, the result is the single \<open>RECOMMEND\<close> act whose constraint is
  the title of that item. The world is left as it was.
\<close>

theorem recommend_selected_item:
  "(\<not> agent_should_make_offer st \<and> get_results h (database_result st) = Inr []
      \<longrightarrow> recommend sl st slots (h, g) = (Inl IndexError, (h, g)))
   \<and> (agent_should_make_offer st \<and> item_in_focus st = Some item
        \<and> map_of item (TITLE sl) = Some t
      \<longrightarrow> recommend sl st slots (h, g) =
            (Inr [DialogueAct A_RECOMMEND [ItemConstraint (TITLE sl) EQ t]], (h, g)))
   \<and> (\<not> agent_should_make_offer st
        \<and> get_results h (database_result st) = Inr (item # others)
        \<and> map_of item (TITLE sl) = Some t
      \<longrightarrow> recommend sl st slots (h, g) =
            (Inr [DialogueAct A_RECOMMEND [ItemConstraint (TITLE sl) EQ t]], (h, g)))"
  by (simp add: item0_def subscript_def dict_getitem_def)

text \<open>
  The three cases of the theorem at concrete snapshots: no database result, an item in
  focus to offer, and the first database result.
\<close>

theorem recommend_selected_item_witness:
  "recommend sl0 state0 3 (store_no_results, rng0) = (Inl IndexError, (store_no_results, rng0))
   \<and> recommend sl0 (state0\<lparr>agent_should_make_offer := True,
                            item_in_focus := Some [(''title'', PStr ''Ronin'')]\<rparr>) 3
         (store0, rng0) =
       (Inr [DialogueAct A_RECOMMEND [ItemConstraint ''title'' EQ (PStr ''Ronin'')]],
        (store0, rng0))
   \<and> recommend sl0 state0 3 (store0, rng0) =
       (Inr [DialogueAct A_RECOMMEND [ItemConstraint ''title'' EQ (PStr ''Heat'')]],
        (store0, rng0))"
proof -
  let ?st1 = "state0\<lparr>agent_should_make_offer := True,
                      item_in_focus := Some [(''title'', PStr ''Ronin'')]\<rparr>"
  have a: "\<not> agent_should_make_offer state0 \<and>
           get_results store_no_results (database_result state0) = Inr []"
    by (simp add: state0_def store_no_results_def get_results_def)
  have b: "agent_should_make_offer ?st1 \<and>
           item_in_focus ?st1 = Some [(''title'', PStr ''Ronin'')] \<and>
           map_of [(''title'', PStr ''Ronin'')] (TITLE sl0) = Some (PStr ''Ronin'')"
    by (simp add: sl0_def)
  have c: "\<not> agent_should_make_offer state0 \<and>
           get_results store0 (database_result state0) = Inr (item_heat # []) \<and>
           map_of item_heat (TITLE sl0) = Some (PStr ''Heat'')"
    by (simp add: state0_def store0_def get_results_def item_heat_def sl0_def)
  have t: "TITLE sl0 = ''title''" by (simp add: sl0_def)
  have r1: "recommend sl0 state0 3 (store_no_results, rng0) =
              (Inl IndexError, (store_no_results, rng0))"
    using recommend_selected_item
      [where st = state0 and h = store_no_results and sl = sl0 and slots = 3 and g = rng0] a
    by blast
  have r2: "recommend sl0 ?st1 3 (store0, rng0) =
       (Inr [DialogueAct A_RECOMMEND [ItemConstraint (TITLE sl0) EQ (PStr ''Ronin'')]],
        (store0, rng0))"
    using recommend_selected_item
      [where st = ?st1 and h = store0 and sl = sl0 and slots = 3 and g = rng0
         and item = "[(''title'', PStr ''Ronin'')]" and t = "PStr ''Ronin''"] b
    by blast
  have r3: "recommend sl0 state0 3 (store0, rng0) =
       (Inr [DialogueAct A_RECOMMEND [ItemConstraint (TITLE sl0) EQ (PStr ''Heat'')]],
        (store0, rng0))"
    using recommend_selected_item
      [where st = state0 and h = store0 and sl = sl0 and slots = 3 and g = rng0
         and item = item_heat and others = "[]" and t = "PStr ''Heat''"] c
    by blast
  show ?thesis
    using r1 r2 r3 by (simp only: t simp_thms)
qed

section \<open>The handler \<open>inform_or_recommend\<close>\<close>

lemma map_of_keys: "(map_of d k = None) = (k \<notin> set (keys d))"
  by (simp add: keys_def map_of_eq_None_iff)

lemma inform_params_Inr:
  assumes "map_of d (TITLE sl) = Some t"
    and "\<forall>param \<in> set ps. slot param \<noteq> MORE_INFO sl \<longrightarrow> slot param \<in> set (keys d)"
  shows "inform_params sl (Some d) ps =
           Inr (map (\<lambda>param. ItemConstraint (slot param) EQ
                      (if slot param \<noteq> MORE_INFO sl then the (map_of d (slot param)) else t)) ps)"
  using assms
proof (induction ps)
  case Nil
  then show ?case by simp
next
  case (Cons p ps)
  then have "slot p \<noteq> MORE_INFO sl \<Longrightarrow> map_of d (slot p) \<noteq> None"
    by (simp add: map_of_keys)
  with Cons show ?case
    by (auto simp: subscript_def dict_getitem_def)
qed

lemma inform_params_Inl:
  assumes "map_of d (TITLE sl) = Some t"
    and "\<exists>param \<in> set ps. slot param \<noteq> MORE_INFO sl \<and> slot param \<notin> set (keys d)"
  shows "\<exists>e. inform_params sl (Some d) ps = Inl e"
  using assms
proof (induction ps)
  case Nil
  then show ?case by simp
next
  case (Cons p ps)
  show ?case
  proof (cases "slot p \<noteq> MORE_INFO sl \<and> slot p \<notin> set (keys d)")
    case True
    then have "map_of d (slot p) = None" by (simp add: map_of_keys)
    with True show ?thesis by (simp add: subscript_def dict_getitem_def)
  next
    case False
    with Cons.prems have
      "\<exists>param \<in> set ps. slot param \<noteq> MORE_INFO sl \<and> slot param \<notin> set (keys d)"
      by auto
    then obtain e where "inform_params sl (Some d) ps = Inl e"
      using Cons.IH Cons.prems(1) by blast
    then show ?thesis by (auto split: sum.splits)
  qed
qed

lemma inform_act_Inr:
  assumes "map_of d (TITLE sl) = Some t"
    and "\<forall>param \<in> set (params u). slot param \<noteq> MORE_INFO sl \<longrightarrow> slot param \<in> set (keys d)"
  shows "inform_act sl (Some d) u =
           Inr (DialogueAct A_INFORM
                  (if params u = [] then [ItemConstraint ''deny'' EQ t]
                   else map (\<lambda>param. ItemConstraint (slot param) EQ
                          (if slot param \<noteq> MORE_INFO sl then the (map_of d (slot param)) else t))
                        (params u)))"
  using assms(1)
  by (simp add: inform_act_def inform_params_Inr [OF assms] subscript_def dict_getitem_def)

lemma inform_act_Inl:
  assumes "map_of d (TITLE sl) = Some t"
    and "\<exists>param \<in> set (params u). slot param \<noteq> MORE_INFO sl \<and> slot param \<notin> set (keys d)"
  shows "\<exists>e. inform_act sl (Some d) u = Inl e"
  using inform_params_Inl [OF assms] by (auto simp: inform_act_def)

lemma inform_loop_append:
  "inform_loop sl item (xs @ ys) =
     (case inform_loop sl item xs of
        Inl e \<Rightarrow> Inl e
      | Inr a1 \<Rightarrow> (case inform_loop sl item ys of Inl e \<Rightarrow> Inl e | Inr a2 \<Rightarrow> Inr (a1 @ a2)))"
  by (induction xs) (auto split: sum.splits)

lemma inform_loop_returns:
  assumes "map_of d (TITLE sl) = Some t"
  shows "(\<exists>acts. inform_loop sl (Some d) us = Inr acts) =
         (\<forall>u \<in> set us. intent u = U_INQUIRE \<longrightarrow>
            (\<forall>param \<in> set (params u). slot param \<noteq> MORE_INFO sl \<longrightarrow> slot param \<in> set (keys d)))"
proof (induction us)
  case Nil
  then show ?case by simp
next
  case (Cons u us)
  show ?case
  proof (cases "intent u = U_INQUIRE")
    case True
    show ?thesis
    proof (cases "\<forall>param \<in> set (params u). slot param \<noteq> MORE_INFO sl \<longrightarrow> slot param \<in> set (keys d)")
      case ok: True
      show ?thesis
        using True ok Cons.IH inform_act_Inr [OF assms ok]
        by (auto split: sum.splits)
    next
      case False
      then obtain e where "inform_act sl (Some d) u = Inl e"
        using inform_act_Inl [OF assms] by blast
      with True False show ?thesis by auto
    qed
  next
    case False
    with Cons.IH assms show ?thesis
      by (auto simp: subscript_def dict_getitem_def split: sum.splits)
  qed
qed

text \<open>
  C3, as stated, fails: for an \<open>INQUIRE\<close> act whose requested slot \<open>director\<close> is not a
  key of the item in focus, \<open>inform_or_recommend\<close> raises \<open>KeyError\<close>; it returns no \<open>INFORM\<close>
  act with a \<open>deny\<close> constraint.
\<close>

theorem inform_absent_slot_counterexample:
  "fst (inform_or_recommend sl0 state_inquire_absent 3 (store0, rng0)) =
     Inl (KeyError ''director'')"
  by (simp add: state_inquire_absent_def state0_def item_heat_def sl0_def inform_act_def
        subscript_def dict_getitem_def)

text \<open>
  C3, amended. Let the item in focus have a title. \<open>inform_or_recommend\<close> returns acts
  exactly when every slot requested by an \<open>INQUIRE\<close> act, other than the more-info slot, is
  a key of the item in focus. When it returns, the act for an \<open>INQUIRE\<close> act \<open>u\<close> is an
  \<open>INFORM\<close> act at the position of \<open>u\<close>: if \<open>u\<close> has no parameters, its only constraint is
  \<open>deny\<close> with the title of the item; otherwise it has one constraint for each parameter of
  \<open>u\<close>, with the value of the item for a slot other than the more-info slot, and the title
  of the item for the more-info slot.
\<close>

theorem inform_or_recommend_inquire:
  assumes "item_in_focus st = Some item" and "map_of item (TITLE sl) = Some t"
  shows
    "((\<exists>acts. fst (inform_or_recommend sl st slots w) = Inr acts) =
        (\<forall>u \<in> set (last_user_dacts st). intent u = U_INQUIRE \<longrightarrow>
           (\<forall>param \<in> set (params u).
              slot param \<noteq> MORE_INFO sl \<longrightarrow> slot param \<in> set (keys item))))
     \<and> (\<forall>before u after acts.
          last_user_dacts st = before @ u # after \<and> intent u = U_INQUIRE \<and>
          fst (inform_or_recommend sl st slots w) = Inr acts \<longrightarrow>
          (\<exists>a1 a2.
             inform_loop sl (Some item) before = Inr a1 \<and>
             inform_loop sl (Some item) after = Inr a2 \<and>
             acts =
               a1 @
               DialogueAct A_INFORM
                 (if params u = [] then [ItemConstraint ''deny'' EQ t]
                  else map (\<lambda>param. ItemConstraint (slot param) EQ
                              (if slot param \<noteq> MORE_INFO sl
                               then the (map_of item (slot param)) else t))
                         (params u))
               # a2))"
proof (intro conjI allI impI)
  show "(\<exists>acts. fst (inform_or_recommend sl st slots w) = Inr acts) =
        (\<forall>u \<in> set (last_user_dacts st). intent u = U_INQUIRE \<longrightarrow>
           (\<forall>param \<in> set (params u).
              slot param \<noteq> MORE_INFO sl \<longrightarrow> slot param \<in> set (keys item)))"
    using inform_loop_returns [OF assms(2), of "last_user_dacts st"] assms(1) by simp
next
  fix before u after acts
  assume h: "last_user_dacts st = before @ u # after \<and> intent u = U_INQUIRE \<and>
          fst (inform_or_recommend sl st slots w) = Inr acts"
  then have run: "inform_loop sl (Some item) (before @ u # after) = Inr acts"
    using assms(1) by auto
  then have "\<exists>acts. inform_loop sl (Some item) (last_user_dacts st) = Inr acts"
    using h by auto
  then have ok: "\<forall>param \<in> set (params u).
              slot param \<noteq> MORE_INFO sl \<longrightarrow> slot param \<in> set (keys item)"
    using inform_loop_returns [OF assms(2), of "last_user_dacts st"] h by simp
  from run obtain a1 rest where a1: "inform_loop sl (Some item) before = Inr a1"
    and rest: "inform_loop sl (Some item) (u # after) = Inr rest" and acts: "acts = a1 @ rest"
    unfolding inform_loop_append by (auto split: sum.splits)
  from rest h obtain a2 where a2: "inform_loop sl (Some item) after = Inr a2"
    and r: "rest =
      DialogueAct A_INFORM
                 (if params u = [] then [ItemConstraint ''deny'' EQ t]
                  else map (\<lambda>param. ItemConstraint (slot param) EQ
                              (if slot param \<noteq> MORE_INFO sl
                               then the (map_of item (slot param)) else t))
                         (params u)) # a2"
    by (auto simp: inform_act_Inr [OF assms(2) ok] split: sum.splits)
  show "\<exists>a1 a2.
             inform_loop sl (Some item) before = Inr a1 \<and>
             inform_loop sl (Some item) after = Inr a2 \<and>
             acts =
               a1 @
               DialogueAct A_INFORM
                 (if params u = [] then [ItemConstraint ''deny'' EQ t]
                  else map (\<lambda>param. ItemConstraint (slot param) EQ
                              (if slot param \<noteq> MORE_INFO sl
                               then the (map_of item (slot param)) else t))
                         (params u))
               # a2"
    using a1 a2 acts r by blast
qed

text \<open>
  The theorem at a concrete snapshot: an \<open>INQUIRE\<close> act without parameters, one that
  requests \<open>genres\<close> and more information, and an \<open>ACCEPT\<close> act.
\<close>

theorem inform_or_recommend_inquire_witness:
  "fst (inform_or_recommend sl0 state_inquire 3 (store0, rng0)) =
     Inr [DialogueAct A_INFORM [ItemConstraint ''deny'' EQ (PStr ''Heat'')],
          DialogueAct A_INFORM
            [ItemConstraint ''genres'' EQ (PStr ''Crime''),
             ItemConstraint ''more_info'' EQ (PStr ''Heat'')],
          DialogueAct A_CONTINUE_RECOMMENDATION [ItemConstraint ''title'' EQ (PStr ''Heat'')]]
   \<and> (\<exists>a1 a2.
         inform_loop sl0 (Some item_heat) [] = Inr a1 \<and>
         inform_loop sl0 (Some item_heat)
           [DialogueAct U_INQUIRE
              [ItemConstraint ''genres'' EQ (PStr []),
               ItemConstraint ''more_info'' EQ (PStr [])],
            DialogueAct U_ACCEPT []] = Inr a2 \<and>
         [DialogueAct A_INFORM [ItemConstraint ''deny'' EQ (PStr ''Heat'')],
          DialogueAct A_INFORM
            [ItemConstraint ''genres'' EQ (PStr ''Crime''),
             ItemConstraint ''more_info'' EQ (PStr ''Heat'')],
          DialogueAct A_CONTINUE_RECOMMENDATION [ItemConstraint ''title'' EQ (PStr ''Heat'')]]
         = a1 @ DialogueAct A_INFORM [ItemConstraint ''deny'' EQ (PStr ''Heat'')] # a2)"
proof -
  let ?u = "DialogueAct U_INQUIRE [] :: UserIntents DialogueAct"
  let ?after = "[DialogueAct U_INQUIRE
              [ItemConstraint ''genres'' EQ (PStr []),
               ItemConstraint ''more_info'' EQ (PStr [])],
            DialogueAct U_ACCEPT []]"
  let ?acts = "[DialogueAct A_INFORM [ItemConstraint ''deny'' EQ (PStr ''Heat'')],
          DialogueAct A_INFORM
            [ItemConstraint ''genres'' EQ (PStr ''Crime''),
             ItemConstraint ''more_info'' EQ (PStr ''Heat'')],
          DialogueAct A_CONTINUE_RECOMMENDATION [ItemConstraint ''title'' EQ (PStr ''Heat'')]]"
  have a: "item_in_focus state_inquire = Some item_heat"
    by (simp add: state_inquire_def)
  have b: "map_of item_heat (TITLE sl0) = Some (PStr ''Heat'')"
    by (simp add: item_heat_def sl0_def)
  have ev: "fst (inform_or_recommend sl0 state_inquire 3 (store0, rng0)) = Inr ?acts"
    by (simp add: state_inquire_def state0_def item_heat_def sl0_def inform_act_def
        subscript_def dict_getitem_def)
  have c: "last_user_dacts state_inquire = [] @ ?u # ?after \<and> intent ?u = U_INQUIRE \<and>
           fst (inform_or_recommend sl0 state_inquire 3 (store0, rng0)) = Inr ?acts"
    using ev by (simp add: state_inquire_def)
  have d: "\<exists>a1 a2.
         inform_loop sl0 (Some item_heat) [] = Inr a1 \<and>
         inform_loop sl0 (Some item_heat) ?after = Inr a2 \<and>
         ?acts = a1 @ DialogueAct A_INFORM
                        (if params ?u = [] then [ItemConstraint ''deny'' EQ (PStr ''Heat'')]
                         else map (\<lambda>param. ItemConstraint (slot param) EQ
                              (if slot param \<noteq> MORE_INFO sl0
                               then the (map_of item_heat (slot param)) else PStr ''Heat''))
                         (params ?u)) # a2"
    using inform_or_recommend_inquire [OF a b, of 3 "(store0, rng0)"] c by blast
  show ?thesis
    using ev d by simp
qed

section \<open>The handler \<open>elicit\<close>\<close>

lemma dict_getitem_key:
  "k \<in> set (keys d) \<Longrightarrow> \<exists>v. map_of d k = Some v \<and> dict_getitem d k = Inr v"
  using map_of_keys [of d k] by (cases "map_of d k") (auto simp: dict_getitem_def)

lemma dict_getitem_missing: "k \<notin> set (keys d) \<Longrightarrow> dict_getitem d k = Inl (KeyError k)"
  using map_of_keys [of d k] by (simp add: dict_getitem_def)

lemma CIN_slots_of_Inr:
  "set ks \<subseteq> set (keys frame) \<Longrightarrow>
     CIN_slots_of sl frame ks =
       Inr (filter (\<lambda>key. \<not> truthy (the (map_of frame key)) \<and> key \<noteq> TITLE sl) ks)"
proof (induction ks)
  case Nil
  then show ?case by simp
next
  case (Cons key ks)
  then obtain v where "map_of frame key = Some v" "dict_getitem frame key = Inr v"
    using dict_getitem_key [of key frame] by auto
  with Cons show ?case by simp
qed

lemma CIN_slots_of_keys:
  "CIN_slots_of sl frame (keys frame) =
     Inr (filter (\<lambda>key. \<not> truthy (the (map_of frame key)) \<and> key \<noteq> TITLE sl) (keys frame))"
  by (rule CIN_slots_of_Inr) simp

lemma elicit_loop_filled:
  "\<forall>s \<in> set xs. \<exists>v. map_of frame s = Some v \<and> truthy v \<Longrightarrow> elicit_loop frame xs = Inr []"
  by (induction xs) (auto simp: dict_getitem_def)

lemma elicit_loop_Inr:
  "set xs \<subseteq> set (keys frame) \<Longrightarrow>
     \<exists>ps. elicit_loop frame xs = Inr ps \<and>
          (ps = [] \<or> (\<exists>s \<in> set xs. ps = [ItemConstraint s EQ (PStr [])]))"
proof (induction xs)
  case Nil
  then show ?case by simp
next
  case (Cons x xs)
  then obtain v where "dict_getitem frame x = Inr v"
    using dict_getitem_key [of x frame] by auto
  with Cons show ?case by auto
qed

lemma elicit_loop_KeyError:
  assumes "\<forall>x \<in> set before. \<exists>v. map_of frame x = Some v \<and> truthy v"
    and "s \<notin> set (keys frame)"
  shows "elicit_loop frame (before @ s # after) = Inl (KeyError s)"
  using assms
  by (induction before) (auto simp: dict_getitem_missing, auto simp: dict_getitem_def)

lemma elicit_loop_Inl:
  "elicit_loop frame xs = Inl e \<Longrightarrow> \<exists>s \<in> set xs. s \<notin> set (keys frame) \<and> e = KeyError s"
proof (induction xs)
  case Nil
  then show ?case by simp
next
  case (Cons x xs)
  show ?case
  proof (cases "x \<in> set (keys frame)")
    case True
    then obtain v where "dict_getitem frame x = Inr v"
      using dict_getitem_key [of x frame] by auto
    with Cons show ?thesis by (auto split: if_splits)
  next
    case False
    with Cons.prems show ?thesis by (simp add: dict_getitem_missing)
  qed
qed

text \<open>The three courses of \<open>elicit\<close> in a store whose references are valid.\<close>

lemma elicit_below_threshold:
  assumes "get_frame h (frame_CIN st) = Inr frame"
    and "CIN_slots_of sl frame (keys frame) = Inr cin"
    and "\<not> slot_left_unasked st \<le> int (length cin)"
  shows "elicit sl st slots (h, g) = (Inr [], (h @ [StrList cin], g))"
  using assms by (simp add: alloc_def)

lemma elicit_req_filled:
  assumes "get_frame h (frame_CIN st) = Inr frame"
    and "CIN_slots_of sl frame (keys frame) = Inr cin"
    and "get_results h (database_result st) = Inr db"
    and "slot_left_unasked st \<le> int (length cin)"
    and "agent_req_filled st"
  shows "elicit sl st slots (h, g) =
           (case item0 (fst (shuffle cin g)) of
              Inl e \<Rightarrow> Inl e
            | Inr s \<Rightarrow>
                Inr [DialogueAct A_COUNT_RESULTS
                       [ItemConstraint ''count'' EQ (PInt (int (length db)))],
                     DialogueAct A_ELICIT [ItemConstraint s EQ (PStr [])]],
            (h @ [StrList (fst (shuffle cin g))], snd (shuffle cin g)))"
  using assms get_results_append [OF assms(3), of "[StrList cin]"]
  by (simp add: alloc_def get_list_fresh list_item0_def get_list_def
        split: prod.splits sum.splits)

lemma elicit_req_unfilled:
  assumes "get_frame h (frame_CIN st) = Inr frame"
    and "CIN_slots_of sl frame (keys frame) = Inr cin"
    and "get_results h (database_result st) = Inr db"
    and "get_list h slots = Inr ss"
    and "slot_left_unasked st \<le> int (length cin)"
    and "\<not> agent_req_filled st"
  shows "elicit sl st slots (h, g) =
           (case elicit_loop frame (fst (shuffle ss g)) of
              Inl e \<Rightarrow> Inl e
            | Inr ps \<Rightarrow>
                Inr [DialogueAct A_COUNT_RESULTS
                       [ItemConstraint ''count'' EQ (PInt (int (length db)))],
                     DialogueAct A_ELICIT ps],
            ((h @ [StrList cin])[slots := StrList (fst (shuffle ss g))], snd (shuffle ss g)))"
proof -
  have s: "slots < length h" using assms(4) by (auto simp: get_list_def split: if_splits)
  have a: "get_list (h @ [StrList cin]) slots = Inr ss"
    using assms(4) by (rule get_list_append)
  have b: "get_list ((h @ [StrList cin])[slots := StrList ys]) slots = Inr ys" for ys
    using s by (simp add: get_list_def)
  show ?thesis
    using assms(1,2,5,6) get_results_append [OF assms(3), of "[StrList cin]"] a b
    by (simp add: alloc_def split: prod.splits sum.splits)
qed

declare elicit.simps [simp del]

text \<open>
  C1, as stated, fails. In its second part: the threshold is met, \<open>agent_req_filled\<close> is
  false and both requestable slots are filled in the frame, and the result of \<open>elicit\<close> still
  has an \<open>ELICIT\<close> act after the \<open>COUNT_RESULTS\<close> act. The act has no parameters: it is
  appended after the loop whether or not the loop found a slot. In its first part: with the
  threshold met, a requestable slot that is not a key of the frame makes \<open>elicit\<close> raise
  \<open>KeyError\<close>, and no act is emitted.
\<close>

theorem elicit_all_filled_counterexample:
  "fst (elicit sl0 state_filled 3 (store_filled, rng0)) =
     Inr [DialogueAct A_COUNT_RESULTS [ItemConstraint ''count'' EQ (PInt 1)],
          DialogueAct A_ELICIT []]
   \<and> fst (elicit sl0 state_filled 3 (store_absent, rng0)) = Inl (KeyError ''actors'')"
proof -
  have sh: "shuffle [''genres'', ''actors''] rng0 = ([''actors'', ''genres''], rng0)"
    by (simp add: shuffle_def randbelow_def swap_def rng0_def)
  have "fst (elicit sl0 state_filled 3 (store_filled, rng0)) =
     Inr [DialogueAct A_COUNT_RESULTS [ItemConstraint ''count'' EQ (PInt 1)],
          DialogueAct A_ELICIT []]"
    by (simp add: elicit.simps state_filled_def state0_def store_filled_def get_frame_def
          get_results_def get_list_def keys_def dict_getitem_def sl0_def alloc_def sh)
  moreover have "fst (elicit sl0 state_filled 3 (store_absent, rng0)) =
     Inl (KeyError ''actors'')"
    by (simp add: elicit.simps state_filled_def state0_def store_absent_def get_frame_def
          get_results_def get_list_def keys_def dict_getitem_def sl0_def alloc_def sh)
  ultimately show ?thesis by simp
qed

text \<open>
  C1, amended. Let the number of unfilled slots of the frame other than the title be at
  least \<open>slot_left_unasked\<close>. Whenever \<open>elicit\<close> returns, its result is the \<open>COUNT_RESULTS\<close>
  act whose count is the length of the database result, followed by one \<open>ELICIT\<close> act. It
  returns when \<open>agent_req_filled\<close> is true and some such slot is unfilled, and when
  \<open>agent_req_filled\<close> is false and every requestable slot is a key of the frame. If
  \<open>agent_req_filled\<close> is false and every requestable slot has a filled entry, the \<open>ELICIT\<close>
  act has no parameters.
\<close>

theorem elicit_threshold:
  assumes "get_frame h (frame_CIN st) = Inr frame"
    and "CIN_slots_of sl frame (keys frame) = Inr cin"
    and "get_results h (database_result st) = Inr db"
    and "get_list h slots = Inr ss"
    and "slot_left_unasked st \<le> int (length cin)"
  shows
    "(\<forall>acts. fst (elicit sl st slots (h, g)) = Inr acts \<longrightarrow>
        (\<exists>a. acts = [DialogueAct A_COUNT_RESULTS
                       [ItemConstraint ''count'' EQ (PInt (int (length db)))], a] \<and>
             intent a = A_ELICIT))
     \<and> ((if agent_req_filled st then cin \<noteq> [] else set ss \<subseteq> set (keys frame)) \<longrightarrow>
          (\<exists>acts. fst (elicit sl st slots (h, g)) = Inr acts))
     \<and> (\<not> agent_req_filled st \<and> (\<forall>s \<in> set ss. \<exists>v. map_of frame s = Some v \<and> truthy v) \<longrightarrow>
          fst (elicit sl st slots (h, g)) =
            Inr [DialogueAct A_COUNT_RESULTS
                   [ItemConstraint ''count'' EQ (PInt (int (length db)))],
                 DialogueAct A_ELICIT []])"
proof (cases "agent_req_filled st")
  case True
  note e = elicit_req_filled [OF assms(1,2,3,5) True, of slots g]
  have ne: "fst (shuffle cin g) \<noteq> []" if "cin \<noteq> []"
    using that shuffle_length [of cin g] by (metis length_0_conv)
  have it: "\<exists>s. item0 (fst (shuffle cin g)) = Inr s" if "cin \<noteq> []"
    using ne [OF that] by (auto simp: item0_def split: list.splits)
  show ?thesis
  proof (cases "cin = []")
    case nil: True
    with True show ?thesis by (auto simp: e split: sum.splits)
  next
    case cons: False
    then obtain s where "item0 (fst (shuffle cin g)) = Inr s" using it by blast
    with True cons show ?thesis by (auto simp: e)
  qed
next
  case False
  note e = elicit_req_unfilled [OF assms False, of g]
  have sub: "\<exists>ps. elicit_loop frame (fst (shuffle ss g)) = Inr ps" if "set ss \<subseteq> set (keys frame)"
    using that elicit_loop_Inr [of "fst (shuffle ss g)" frame] by (auto simp: shuffle_set)
  have fl: "elicit_loop frame (fst (shuffle ss g)) = Inr []"
    if "\<forall>s \<in> set ss. \<exists>v. map_of frame s = Some v \<and> truthy v"
    using that by (intro elicit_loop_filled) (simp add: shuffle_set)
  show ?thesis
    using False sub fl by (auto simp: e split: sum.splits)
qed

text \<open>
  The theorem at the concrete snapshot with both requestable slots filled, for
  \<open>agent_req_filled\<close> false and true.
\<close>

theorem elicit_threshold_witness:
  "fst (elicit sl0 state_filled 3 (store_filled, rng0)) =
     Inr [DialogueAct A_COUNT_RESULTS [ItemConstraint ''count'' EQ (PInt 1)],
          DialogueAct A_ELICIT []]
   \<and> (\<exists>acts. fst (elicit sl0 (state_filled\<lparr>agent_req_filled := True\<rparr>) 3
                       (store_filled, rng0)) = Inr acts)"
proof -
  let ?frame = "[(''genres'', PStr ''crime''), (''actors'', PStr ''De Niro''),
             (''year'', PNone), (''title'', PNone)]"
  let ?db = "[[(''title'', PStr ''Heat''), (''genres'', PStr ''Crime'')]]"
  let ?st = "state_filled\<lparr>agent_req_filled := True\<rparr>"
  have a: "get_frame store_filled (frame_CIN state_filled) = Inr ?frame"
    "get_frame store_filled (frame_CIN ?st) = Inr ?frame"
    by (simp_all add: get_frame_def store_filled_def state_filled_def state0_def)
  have b: "CIN_slots_of sl0 ?frame (keys ?frame) = Inr [''year'']"
    by (simp add: keys_def dict_getitem_def sl0_def)
  have c: "get_results store_filled (database_result state_filled) = Inr ?db"
    "get_results store_filled (database_result ?st) = Inr ?db"
    by (simp_all add: get_results_def store_filled_def state_filled_def state0_def)
  have d: "get_list store_filled 3 = Inr [''genres'', ''actors'']"
    by (simp add: get_list_def store_filled_def)
  have e: "slot_left_unasked state_filled \<le> int (length [''year''])"
    by (simp add: state_filled_def)
  have f: "\<not> agent_req_filled state_filled \<and>
           (\<forall>s \<in> set [''genres'', ''actors'']. \<exists>v. map_of ?frame s = Some v \<and> truthy v)"
    by (simp add: state_filled_def state0_def)
  have e2: "slot_left_unasked ?st \<le> int (length [''year''])"
    by (simp add: state_filled_def)
  have f2: "if agent_req_filled ?st then [''year''] \<noteq> []
            else set [''genres'', ''actors''] \<subseteq> set (keys ?frame)"
    by simp
  have r1: "fst (elicit sl0 state_filled 3 (store_filled, rng0)) =
     Inr [DialogueAct A_COUNT_RESULTS [ItemConstraint ''count'' EQ (PInt (int (length ?db)))],
          DialogueAct A_ELICIT []]"
    using elicit_threshold [OF a(1) b c(1) d e, of rng0] f by blast
  have r2: "\<exists>acts. fst (elicit sl0 ?st 3 (store_filled, rng0)) = Inr acts"
    using elicit_threshold [OF a(2) b c(2) d e2, of rng0] f2 by blast
  show ?thesis using r1 r2 by simp
qed

text \<open>
  Every element of a list can come first in the shuffled list: the draws leave every
  position alone but position \<open>p\<close>, which they exchange with position \<open>0\<close>.
\<close>

lemma swap_same: "i < length xs \<Longrightarrow> swap i i xs = xs"
  by (simp add: swap_def)

lemma shuffle_loop_chosen:
  assumes "i < length xs"
  shows "fst (shuffle_loop i xs (\<lambda>k. if i - k = p then 0 else i - k)) =
           (if 1 \<le> p \<and> p \<le> i then swap p 0 xs else xs)"
  using assms
proof (induction i arbitrary: xs)
  case 0
  then show ?case by auto
next
  case (Suc i)
  let ?g = "\<lambda>k. if Suc i - k = p then 0 else Suc i - k"
  have g': "(\<lambda>k. ?g (Suc k)) = (\<lambda>k. if i - k = p then 0 else i - k)"
    by (rule ext) simp
  show ?case
  proof (cases "p = Suc i")
    case True
    have r: "randbelow (Suc i + 1) ?g = (0, \<lambda>k. if i - k = p then 0 else i - k)"
      using True g' by (simp add: randbelow_def)
    have "fst (shuffle_loop i (swap (Suc i) 0 xs) (\<lambda>k. if i - k = p then 0 else i - k)) =
            swap (Suc i) 0 xs"
      using Suc.IH [of "swap (Suc i) 0 xs"] Suc.prems True by simp
    with r True show ?thesis by simp
  next
    case False
    have r: "randbelow (Suc i + 1) ?g = (Suc i, \<lambda>k. if i - k = p then 0 else i - k)"
      using False g' by (simp add: randbelow_def)
    have "fst (shuffle_loop i xs (\<lambda>k. if i - k = p then 0 else i - k)) =
            (if 1 \<le> p \<and> p \<le> i then swap p 0 xs else xs)"
      using Suc.IH [of xs] Suc.prems by simp
    with r False Suc.prems show ?thesis by (auto simp: swap_same)
  qed
qed

lemma shuffle_first:
  assumes "x \<in> set xs"
  shows "\<exists>g rest. fst (shuffle xs g) = x # rest"
proof -
  from assms obtain p where p: "p < length xs" "xs ! p = x"
    by (auto simp: in_set_conv_nth)
  let ?g = "\<lambda>k. if (length xs - 1) - k = p then 0 else (length xs - 1) - k"
  have "fst (shuffle xs ?g) = (if 1 \<le> p \<and> p \<le> length xs - 1 then swap p 0 xs else xs)"
    unfolding shuffle_def using p(1) by (intro shuffle_loop_chosen) simp
  moreover have "p \<le> length xs - 1" using p(1) by simp
  ultimately have ys: "fst (shuffle xs ?g) = (if 1 \<le> p then swap p 0 xs else xs)"
    by simp
  have "(if 1 \<le> p then swap p 0 xs else xs) ! 0 = x"
  proof (cases "1 \<le> p")
    case True
    have "0 < length (xs[p := xs ! 0])" using p(1) by auto
    then show ?thesis using True p(2) by (simp add: swap_def)
  next
    case False
    then have "p = 0" by simp
    then show ?thesis using p(2) by simp
  qed
  then have z: "fst (shuffle xs ?g) ! 0 = x" using ys by simp
  have "length (fst (shuffle xs ?g)) = length xs" by (rule shuffle_length)
  then have "fst (shuffle xs ?g) \<noteq> []" using p(1) by auto
  with z have "fst (shuffle xs ?g) ! 0 = x \<and> fst (shuffle xs ?g) \<noteq> []" by simp
  then show ?thesis by (cases "fst (shuffle xs ?g)") auto
qed

text \<open>
  C9. If every requestable slot is a key of the frame, \<open>elicit\<close> never raises \<open>KeyError\<close>.
  In the branch for \<open>agent_req_filled\<close> false, with the threshold met, \<open>elicit\<close> returns for
  every random source exactly when every requestable slot is a key of the frame; and when
  the shuffled list has a slot \<open>s\<close> that the frame lacks after slots that are all filled,
  \<open>elicit\<close> raises \<open>KeyError s\<close>.
\<close>

theorem elicit_KeyError:
  assumes "get_frame h (frame_CIN st) = Inr frame"
    and "get_results h (database_result st) = Inr db"
    and "get_list h slots = Inr ss"
  shows
    "(set ss \<subseteq> set (keys frame) \<longrightarrow>
        (\<forall>g k. fst (elicit sl st slots (h, g)) \<noteq> Inl (KeyError k)))
     \<and> (\<forall>cin. CIN_slots_of sl frame (keys frame) = Inr cin \<and>
              slot_left_unasked st \<le> int (length cin) \<and> \<not> agent_req_filled st \<longrightarrow>
          ((\<forall>g. \<exists>acts. fst (elicit sl st slots (h, g)) = Inr acts) =
             (set ss \<subseteq> set (keys frame)))
          \<and> (\<forall>g before s after.
                fst (shuffle ss g) = before @ s # after \<and>
                (\<forall>x \<in> set before. \<exists>v. map_of frame x = Some v \<and> truthy v) \<and>
                s \<notin> set (keys frame) \<longrightarrow>
                fst (elicit sl st slots (h, g)) = Inl (KeyError s)))"
proof (intro conjI allI impI)
  fix g k
  assume sub: "set ss \<subseteq> set (keys frame)"
  obtain cin where cin: "CIN_slots_of sl frame (keys frame) = Inr cin"
    using CIN_slots_of_keys by blast
  show "fst (elicit sl st slots (h, g)) \<noteq> Inl (KeyError k)"
  proof (cases "slot_left_unasked st \<le> int (length cin)")
    case False
    show ?thesis by (simp add: elicit_below_threshold [OF assms(1) cin False])
  next
    case True
    show ?thesis
    proof (cases "agent_req_filled st")
      case filled: True
      show ?thesis
        by (simp add: elicit_req_filled [OF assms(1) cin assms(2) True filled] item0_def
              split: list.splits)
    next
      case False
      obtain ps where "elicit_loop frame (fst (shuffle ss g)) = Inr ps"
        using sub elicit_loop_Inr [of "fst (shuffle ss g)" frame] by (auto simp: shuffle_set)
      then show ?thesis
        by (simp add: elicit_req_unfilled [OF assms(1) cin assms(2,3) True False])
    qed
  qed
next
  fix cin
  assume c: "CIN_slots_of sl frame (keys frame) = Inr cin \<and>
              slot_left_unasked st \<le> int (length cin) \<and> \<not> agent_req_filled st"
  then have e: "elicit sl st slots (h, g) =
           (case elicit_loop frame (fst (shuffle ss g)) of
              Inl e \<Rightarrow> Inl e
            | Inr ps \<Rightarrow>
                Inr [DialogueAct A_COUNT_RESULTS
                       [ItemConstraint ''count'' EQ (PInt (int (length db)))],
                     DialogueAct A_ELICIT ps],
            ((h @ [StrList cin])[slots := StrList (fst (shuffle ss g))], snd (shuffle ss g)))"
    for g
    using elicit_req_unfilled [OF assms(1) _ assms(2,3), of sl cin g] by simp
  show "(\<forall>g. \<exists>acts. fst (elicit sl st slots (h, g)) = Inr acts) =
             (set ss \<subseteq> set (keys frame))"
  proof
    assume total: "\<forall>g. \<exists>acts. fst (elicit sl st slots (h, g)) = Inr acts"
    show "set ss \<subseteq> set (keys frame)"
    proof
      fix x
      assume "x \<in> set ss"
      then have "\<exists>g rest. fst (shuffle ss g) = x # rest"
        by (rule shuffle_first)
      then obtain g rest where g: "fst (shuffle ss g) = x # rest"
        by auto
      show "x \<in> set (keys frame)"
      proof (rule ccontr)
        assume "x \<notin> set (keys frame)"
        then have "elicit_loop frame (fst (shuffle ss g)) = Inl (KeyError x)"
          using g by (simp add: dict_getitem_missing)
        then have "fst (elicit sl st slots (h, g)) = Inl (KeyError x)"
          by (simp add: e)
        with total show False by (metis Inl_Inr_False)
      qed
    qed
  next
    assume sub: "set ss \<subseteq> set (keys frame)"
    show "\<forall>g. \<exists>acts. fst (elicit sl st slots (h, g)) = Inr acts"
    proof
      fix g
      obtain ps where "elicit_loop frame (fst (shuffle ss g)) = Inr ps"
        using sub elicit_loop_Inr [of "fst (shuffle ss g)" frame] by (auto simp: shuffle_set)
      then show "\<exists>acts. fst (elicit sl st slots (h, g)) = Inr acts"
        by (simp add: e)
    qed
  qed
  fix g before s after
  assume k: "fst (shuffle ss g) = before @ s # after \<and>
                (\<forall>x \<in> set before. \<exists>v. map_of frame x = Some v \<and> truthy v) \<and>
                s \<notin> set (keys frame)"
  then have "elicit_loop frame (fst (shuffle ss g)) = Inl (KeyError s)"
    using elicit_loop_KeyError [of before frame s after] by simp
  then show "fst (elicit sl st slots (h, g)) = Inl (KeyError s)"
    by (simp add: e)
qed

text \<open>
  The theorem at a frame that lacks the requestable slot \<open>actors\<close>, which comes first in
  the shuffled list, and at a frame that has both requestable slots.
\<close>

theorem elicit_KeyError_witness:
  "fst (elicit sl0 state_filled 3 (store_absent, rng0)) = Inl (KeyError ''actors'')
   \<and> fst (elicit sl0 state_filled 3 (store_filled, rng0)) \<noteq> Inl (KeyError ''actors'')"
proof -
  let ?absent = "[(''genres'', PStr ''crime''), (''year'', PNone), (''title'', PNone)]"
  let ?frame = "[(''genres'', PStr ''crime''), (''actors'', PStr ''De Niro''),
             (''year'', PNone), (''title'', PNone)]"
  let ?db = "[[(''title'', PStr ''Heat''), (''genres'', PStr ''Crime'')]]"
  have a: "get_frame store_absent (frame_CIN state_filled) = Inr ?absent"
    by (simp add: get_frame_def store_absent_def state_filled_def state0_def)
  have b: "get_results store_absent (database_result state_filled) = Inr ?db"
    by (simp add: get_results_def store_absent_def state_filled_def state0_def)
  have c: "get_list store_absent 3 = Inr [''genres'', ''actors'']"
    by (simp add: get_list_def store_absent_def)
  have sh: "shuffle [''genres'', ''actors''] rng0 = ([''actors'', ''genres''], rng0)"
    by (simp add: shuffle_def randbelow_def swap_def rng0_def)
  have d: "CIN_slots_of sl0 ?absent (keys ?absent) = Inr [''year''] \<and>
           slot_left_unasked state_filled \<le> int (length [''year'']) \<and>
           \<not> agent_req_filled state_filled"
    by (simp add: keys_def dict_getitem_def sl0_def state_filled_def state0_def)
  have e: "fst (shuffle [''genres'', ''actors''] rng0) = [] @ ''actors'' # [''genres''] \<and>
           (\<forall>x \<in> set []. \<exists>v. map_of ?absent x = Some v \<and> truthy v) \<and>
           ''actors'' \<notin> set (keys ?absent)"
    by (simp add: sh keys_def)
  have r1: "fst (elicit sl0 state_filled 3 (store_absent, rng0)) = Inl (KeyError ''actors'')"
    using elicit_KeyError [OF a b c, of sl0] d e by blast
  have a2: "get_frame store_filled (frame_CIN state_filled) = Inr ?frame"
    by (simp add: get_frame_def store_filled_def state_filled_def state0_def)
  have b2: "get_results store_filled (database_result state_filled) = Inr ?db"
    by (simp add: get_results_def store_filled_def state_filled_def state0_def)
  have c2: "get_list store_filled 3 = Inr [''genres'', ''actors'']"
    by (simp add: get_list_def store_filled_def)
  have f: "set [''genres'', ''actors''] \<subseteq> set (keys ?frame)"
    by (simp add: keys_def)
  have r2: "fst (elicit sl0 state_filled 3 (store_filled, rng0)) \<noteq> Inl (KeyError ''actors'')"
    using elicit_KeyError [OF a2 b2 c2, of sl0] f by blast
  show ?thesis using r1 r2 by simp
qed

section \<open>The single example\<close>

lemma split_sep_nonempty: "split_sep c s \<noteq> []"
  by (induction s) (auto split: list.splits)

lemma remdups_single: "xs \<noteq> [] \<Longrightarrow> set xs \<subseteq> {a} \<Longrightarrow> remdups xs = [a]"
proof (induction xs)
  case Nil
  then show ?case by simp
next
  case (Cons x xs)
  then show ?case by (cases xs) auto
qed

lemma collect_examples_single:
  assumes "\<forall>result \<in> set db. \<exists>s. map_of result slot_name = Some (PStr s) \<and>
             (\<forall>x \<in> set (split_sep CHR '','' s). strip x = f)"
    and "set examples \<subseteq> {quote f}"
    and "db \<noteq> [] \<or> examples \<noteq> []"
  shows "\<exists>ex. collect_examples db slot_name examples = Inr ex \<and> ex \<noteq> [] \<and>
              set ex \<subseteq> {quote f}"
  using assms
proof (induction db arbitrary: examples)
  case Nil
  then show ?case by simp
next
  case (Cons result rest)
  from Cons.prems(1) obtain s where s: "map_of result slot_name = Some (PStr s)"
    and fr: "\<forall>x \<in> set (split_sep CHR '','' s). strip x = f"
    by auto
  let ?temp = "map strip (split_sep CHR '','' s)"
  let ?ex = "examples @ map quote (filter (\<lambda>x. x \<notin> set examples) ?temp)"
  have t: "set ?temp \<subseteq> {f}" using fr by auto
  have sub: "set ?ex \<subseteq> {quote f}" using Cons.prems(2) t by auto
  have ne: "?ex \<noteq> []"
  proof (cases "examples = []")
    case True
    then show ?thesis using split_sep_nonempty [of "CHR '',''" s] by simp
  next
    case False
    then show ?thesis by simp
  qed
  have "\<exists>ex. collect_examples rest slot_name ?ex = Inr ex \<and> ex \<noteq> [] \<and> set ex \<subseteq> {quote f}"
    using Cons.prems(1) sub ne by (intro Cons.IH) auto
  then show ?case
    using s sub ne by (simp add: dict_getitem_def Let_def)
qed

text \<open>
  C7, as stated, fails: for one database result whose only fragment is \<open>Action\<close>, the
  aggregator returns the fragment between two single quotes, not the fragment itself.
\<close>

theorem generate_examples_quoted_counterexample:
  "fst (generate_examples [[(''genre'', PStr ''Action'')]] ''genre'' rng0 rng0) =
     Inr (Some (CHR 0x27 # ''Action'' @ [CHR 0x27]))
   \<and> fst (generate_examples [[(''genre'', PStr ''Action'')]] ''genre'' rng0 rng0) \<noteq>
     Inr (Some ''Action'')"
  by (simp add: generate_examples_def dict_getitem_def strip_def isspace_def quote_def
        list_of_set_def shuffle_def item0_def)

text \<open>
  C7, amended. For every non-empty database result whose entries for the slot are strings
  with one and the same fragment \<open>f\<close> (each part between commas, stripped of whitespace),
  \<open>_generate_examples\<close> returns \<open>f\<close> between two single quotes, with no \<open>or\<close>, whatever the
  order of the set and the random source are; it draws nothing from the random source.
\<close>

theorem generate_examples_single:
  assumes "db \<noteq> []"
    and "\<forall>result \<in> set db. \<exists>s. map_of result slot_name = Some (PStr s) \<and>
           (\<forall>x \<in> set (split_sep CHR '','' s). strip x = f)"
  shows "generate_examples db slot_name ho g = (Inr (Some (quote f)), g)"
proof -
  obtain ex where ex: "collect_examples db slot_name [] = Inr ex" "ex \<noteq> []"
    "set ex \<subseteq> {quote f}"
    using collect_examples_single [OF assms(2), of "[]"] assms(1) by auto
  have "remdups ex = [quote f]" using ex(2,3) by (rule remdups_single)
  then have "list_of_set ho ex = [quote f]"
    by (simp add: list_of_set_def shuffle_def)
  then show ?thesis
    using ex(1,2) by (simp add: generate_examples_def shuffle_def item0_def)
qed

text \<open>
  The theorem at two database results with the fragments \<open>Action\<close>, twice with
  whitespace around.
\<close>

theorem generate_examples_single_witness:
  "generate_examples results_action ''genre'' (\<lambda>k. k) rng0 =
     (Inr (Some (CHR 0x27 # ''Action'' @ [CHR 0x27])), rng0)"
proof -
  have a: "results_action \<noteq> []" by (simp add: results_action_def)
  have b: "\<forall>result \<in> set results_action.
             \<exists>s. map_of result ''genre'' = Some (PStr s) \<and>
               (\<forall>x \<in> set (split_sep CHR '','' s). strip x = ''Action'')"
    by (simp add: results_action_def strip_def isspace_def)
  show ?thesis
    using generate_examples_single [OF a b, of "\<lambda>k. k" rng0] by (simp add: quote_def)
qed

section \<open>Totality and the fallback of the dispatcher\<close>

lemma possible_actions_cases:
  assumes "map_of possible_actions_per_state state_name = Some action"
  obtains "state_name = ''agent_req_filled''" "action = elicit"
  | "state_name = ''agent_made_partial_offer''" "action = choose_elicit_or_recommend"
  | "state_name = ''agent_should_make_offer''" "action = recommend"
  | "state_name = ''agent_made_offer''" "action = inform_or_recommend"
  | "state_name = ''agent_offer_no_results''" "action = no_results"
  | "state_name = ''at_terminal_state''" "action = finish"
  using assms by (auto simp: possible_actions_per_state_def split: if_splits)

lemma item0_Inr: "xs \<noteq> [] \<Longrightarrow> \<exists>x. item0 xs = Inr x"
  by (cases xs) (simp_all add: item0_def)

lemma recommend_ok_Inr:
  assumes "get_results h (database_result st) = Inr db" and "recommend_ok sl db st"
  shows "\<exists>a. recommend sl st slots (h, g) = (Inr [a], (h, g))"
proof -
  obtain item where i: "(if agent_should_make_offer st then item_in_focus st
            else (case db of [] \<Rightarrow> None | it # _ \<Rightarrow> Some it)) = Some item"
    and t: "TITLE sl \<in> set (keys item)"
    using assms(2) by (auto simp: recommend_ok_def split: option.splits)
  obtain v where v: "dict_getitem item (TITLE sl) = Inr v"
    using dict_getitem_key [OF t] by auto
  show ?thesis
    using assms(1) i v
    by (auto simp: item0_def subscript_def split: if_splits list.splits)
qed

lemma inform_ok_Inr:
  assumes "inform_ok sl st"
  shows "\<exists>acts. inform_or_recommend sl st slots w = (Inr acts, w)"
proof -
  obtain item where i: "item_in_focus st = Some item" and t: "TITLE sl \<in> set (keys item)"
    and r: "\<forall>u \<in> set (last_user_dacts st). intent u = U_INQUIRE \<longrightarrow>
             (\<forall>param \<in> set (params u).
                slot param \<noteq> MORE_INFO sl \<longrightarrow> slot param \<in> set (keys item))"
    using assms by (auto simp: inform_ok_def split: option.splits)
  obtain v where v: "map_of item (TITLE sl) = Some v"
    using dict_getitem_key [OF t] by auto
  have "\<exists>acts. inform_loop sl (Some item) (last_user_dacts st) = Inr acts"
    using inform_loop_returns [OF v, of "last_user_dacts st"] r by simp
  then show ?thesis using i by simp
qed

lemma elicit_ok_Inr:
  assumes "get_frame h (frame_CIN st) = Inr frame"
    and "get_results h (database_result st) = Inr db"
    and "get_list h slots = Inr ss"
    and "elicit_ok sl frame ss st"
  shows "(\<exists>cin. elicit sl st slots (h, g) = (Inr [], (h @ [StrList cin], g))) \<or>
         (\<exists>a acts w. elicit sl st slots (h, g) = (Inr (a # acts), w))"
proof -
  obtain cin where cin: "CIN_slots_of sl frame (keys frame) = Inr cin"
    using CIN_slots_of_keys by blast
  show ?thesis
  proof (cases "slot_left_unasked st \<le> int (length cin)")
    case False
    show ?thesis using elicit_below_threshold [OF assms(1) cin False] by blast
  next
    case True
    have sub: "set ss \<subseteq> set (keys frame)" using assms(4) by (simp add: elicit_ok_def)
    have "\<exists>a acts. fst (elicit sl st slots (h, g)) = Inr (a # acts)"
    proof (cases "agent_req_filled st")
      case filled: True
      then have "cin \<noteq> []" using assms(4) cin True by (auto simp: elicit_ok_def)
      then have "fst (shuffle cin g) \<noteq> []"
        using shuffle_length [of cin g] by (metis length_0_conv)
      then obtain s where "item0 (fst (shuffle cin g)) = Inr s"
        using item0_Inr by blast
      then show ?thesis
        by (simp add: elicit_req_filled [OF assms(1) cin assms(2) True filled])
    next
      case False
      obtain ps where "elicit_loop frame (fst (shuffle ss g)) = Inr ps"
        using sub elicit_loop_Inr [of "fst (shuffle ss g)" frame] by (auto simp: shuffle_set)
      then show ?thesis
        by (simp add: elicit_req_unfilled [OF assms(1) cin assms(2,3) True False])
    qed
    then show ?thesis by (metis prod.collapse)
  qed
qed

lemma dispatch_nonempty:
  "fst (dispatch sl st slots tags w) = Inr acts \<Longrightarrow> acts \<noteq> []"
proof (induction tags arbitrary: w)
  case Nil
  then show ?case by auto
next
  case (Cons state_name rest)
  show ?case
  proof (cases "map_of possible_actions_per_state state_name")
    case None
    with Cons show ?thesis by simp
  next
    case (Some action)
    obtain r1 w1 where a: "action sl st slots w = (r1, w1)" by (metis prod.exhaust)
    show ?thesis
    proof (cases "r1 = Inr []")
      case True
      with Cons.prems Some a have "fst (dispatch sl st slots rest w1) = Inr acts" by simp
      then show ?thesis by (rule Cons.IH)
    next
      case False
      with Cons.prems Some a show ?thesis by (auto split: sum.splits if_splits)
    qed
  qed
qed

lemma dispatch_continue:
  assumes "map_of possible_actions_per_state state_name = Some action"
    and "action sl st slots w = (Inr [], w1)"
  shows "dispatch sl st slots (state_name # rest) w = dispatch sl st slots rest w1"
  using assms by simp

lemma dispatch_total:
  assumes fr: "get_frame hb (frame_CIN st) = Inr frame"
    and db: "get_results hb (database_result st) = Inr db"
    and ss: "get_list hb slots = Inr ss"
    and e: "''agent_req_filled'' \<in> T \<or> ''agent_made_partial_offer'' \<in> T
              \<longrightarrow> elicit_ok sl frame ss st"
    and r: "''agent_should_make_offer'' \<in> T \<or> ''agent_made_partial_offer'' \<in> T
              \<longrightarrow> recommend_ok sl db st"
    and i: "''agent_made_offer'' \<in> T \<longrightarrow> inform_ok sl st"
    and sub: "set tags \<subseteq> T"
  shows "\<exists>acts. fst (dispatch sl st slots tags (hb @ ext, g)) = Inr acts"
  using sub
proof (induction tags arbitrary: ext g)
  case Nil
  then show ?case by simp
next
  case (Cons state_name rest)
  have rest: "set rest \<subseteq> T" and here: "state_name \<in> T" using Cons.prems by auto
  note fr' = get_frame_append [OF fr, of ext]
  note db' = get_results_append [OF db, of ext]
  note ss' = get_list_append [OF ss, of ext]
  show ?case
  proof (cases "map_of possible_actions_per_state state_name")
    case None
    then show ?thesis using Cons.IH [OF rest] by simp
  next
    case (Some action)
    from Some show ?thesis
    proof (cases rule: possible_actions_cases)
      case 1
      then have ok: "elicit_ok sl frame ss st" using e here by simp
      from elicit_ok_Inr [OF fr' db' ss' ok, of g] show ?thesis
      proof
        assume "\<exists>cin. elicit sl st slots (hb @ ext, g) = (Inr [], (hb @ ext) @ [StrList cin], g)"
        then obtain cin where
          c: "elicit sl st slots (hb @ ext, g) = (Inr [], hb @ (ext @ [StrList cin]), g)"
          by auto
        show ?thesis
          using Cons.IH [OF rest, of "ext @ [StrList cin]" g] Some 1(2) c by simp
      next
        assume "\<exists>a acts w. elicit sl st slots (hb @ ext, g) = (Inr (a # acts), w)"
        then show ?thesis using Some 1(2) by auto
      qed
    next
      case 2
      then have ok: "elicit_ok sl frame ss st" and rok: "recommend_ok sl db st"
        using e r here by simp_all
      from elicit_ok_Inr [OF fr' db' ss' ok, of g] show ?thesis
      proof
        assume "\<exists>cin. elicit sl st slots (hb @ ext, g) = (Inr [], (hb @ ext) @ [StrList cin], g)"
        then obtain cin where
          c: "elicit sl st slots (hb @ ext, g) = (Inr [], hb @ (ext @ [StrList cin]), g)"
          by auto
        obtain a where "recommend sl st slots (hb @ (ext @ [StrList cin]), g) =
                          (Inr [a], (hb @ (ext @ [StrList cin]), g))"
          using recommend_ok_Inr [OF get_results_append [OF db, of "ext @ [StrList cin]"] rok]
          by blast
        then show ?thesis using Some 2(2) c by simp
      next
        assume "\<exists>a acts w. elicit sl st slots (hb @ ext, g) = (Inr (a # acts), w)"
        then show ?thesis using Some 2(2) by auto
      qed
    next
      case 3
      then have rok: "recommend_ok sl db st" using r here by simp
      obtain a where "recommend sl st slots (hb @ ext, g) = (Inr [a], (hb @ ext, g))"
        using recommend_ok_Inr [OF db' rok] by blast
      then show ?thesis using Some 3(2) by simp
    next
      case 4
      then have "inform_ok sl st" using i here by simp
      then obtain acts where
        a: "inform_or_recommend sl st slots (hb @ ext, g) = (Inr acts, (hb @ ext, g))"
        using inform_ok_Inr by blast
      show ?thesis
      proof (cases acts)
        case Nil
        then show ?thesis
          using Cons.IH [OF rest, of ext g] Some 4(2) a by (simp del: inform_or_recommend.simps)
      next
        case (Cons b bs)
        then show ?thesis using Some 4(2) a by (simp del: inform_or_recommend.simps)
      qed
    next
      case 5
      then show ?thesis using Some by simp
    next
      case 6
      then show ?thesis using Some by simp
    qed
  qed
qed

lemma dispatch_all_decline:
  assumes "\<forall>tag \<in> set tags. \<forall>action. map_of possible_actions_per_state tag = Some action \<longrightarrow>
             (\<forall>h2 g2. store_ext n h0 h2 \<longrightarrow> fst (action sl st slots (h2, g2)) = Inr [])"
    and "store_ext n h0 h" and "n \<le> slots" and "n \<le> length h0"
  shows "fst (dispatch sl st slots tags (h, g)) = Inr [DialogueAct A_CANT_HELP []]"
  using assms(1,2)
proof (induction tags arbitrary: h g)
  case Nil
  then show ?case by simp
next
  case (Cons state_name rest)
  have restp: "\<forall>tag \<in> set rest. \<forall>action. map_of possible_actions_per_state tag = Some action \<longrightarrow>
             (\<forall>h2 g2. store_ext n h0 h2 \<longrightarrow> fst (action sl st slots (h2, g2)) = Inr [])"
    using Cons.prems(1) by simp
  show ?case
  proof (cases "map_of possible_actions_per_state state_name")
    case None
    then show ?thesis using Cons.IH [OF restp Cons.prems(2)] by simp
  next
    case (Some action)
    have "fst (action sl st slots (h, g)) = Inr []"
      using Cons.prems Some by simp
    then obtain h1 g1 where a: "action sl st slots (h, g) = (Inr [], (h1, g1))"
      by (metis prod.collapse)
    have "n \<le> length h" using Cons.prems(2) assms(4) by (simp add: store_ext_def)
    then have "store_ext n h h1" using handler_ext [OF Some a assms(3)] by simp
    with Cons.prems(2) have "store_ext n h0 h1" by (rule store_ext_trans)
    then show ?thesis
      using Cons.IH [OF restp, of h1 g1] Some a by simp
  qed
qed

lemma store_ext_nth:
  assumes "store_ext n h h2" and "r < n" and "n \<le> length h"
  shows "r < length h2 \<and> h2 ! r = h ! r"
proof -
  have "take n h2 ! r = take n h ! r" using assms(1) by (simp add: store_ext_def)
  then show ?thesis using assms by (simp add: store_ext_def)
qed

lemma get_frame_ext:
  assumes "store_ext n h h2" and "r < n" and "n \<le> length h"
  shows "get_frame h2 r = get_frame h r"
  using store_ext_nth [OF assms] assms(2,3) by (simp add: get_frame_def)

text \<open>
  C2. The result of \<open>next_action\<close> is never empty: whenever it returns acts, there is at
  least one. For a well-formed snapshot it returns acts. For a snapshot that reaches the
  dispatch, if every active state name is either not in the table or has a handler that
  returns the empty list (in every store that extends the caller's and with every random
  source), the result is exactly the act \<open>CANT_HELP\<close>: this covers the empty list of state
  names and a list with no name of the table. And a handler that returns the empty list
  makes the dispatch go on with the next active state name.
\<close>

theorem next_action_total:
  "(\<forall>acts. fst (next_action self sl st ctx restart (h, g)) = Inr acts \<longrightarrow> acts \<noteq> [])
   \<and> (well_formed sl h st \<longrightarrow>
        (\<exists>acts. fst (next_action self sl st ctx restart (h, g)) = Inr acts \<and> acts \<noteq> []))
   \<and> ((\<exists>ss. get_list h (agent_requestable st) = Inr ss) \<and>
       \<not> restart_requested st restart \<and> \<not> conversation_start st restart \<and>
       \<not> acknowledged_welcome st \<and>
       (\<forall>tag \<in> set (agent_offer_state st). \<forall>action.
          map_of possible_actions_per_state tag = Some action \<longrightarrow>
          (\<forall>h2 g2. store_ext (length h) h h2 \<longrightarrow>
             fst (action sl st (length h) (h2, g2)) = Inr []))
       \<longrightarrow> fst (next_action self sl st ctx restart (h, g)) = Inr [DialogueAct A_CANT_HELP []])
   \<and> (\<forall>state_name rest action slots w w1.
         map_of possible_actions_per_state state_name = Some action \<and>
         action sl st slots w = (Inr [], w1) \<longrightarrow>
         dispatch sl st slots (state_name # rest) w = dispatch sl st slots rest w1)"
proof (intro conjI allI impI)
  fix acts
  assume r: "fst (next_action self sl st ctx restart (h, g)) = Inr acts"
  show "acts \<noteq> []"
  proof (cases "get_list h (agent_requestable st)")
    case (Inl e)
    with r show ?thesis by (simp add: next_action_no_list del: next_action.simps)
  next
    case (Inr ss)
    consider (a) "restart_requested st restart"
      | (b) "\<not> restart_requested st restart" "conversation_start st restart"
      | (c) "\<not> restart_requested st restart" "\<not> conversation_start st restart"
            "acknowledged_welcome st"
      | (d) "\<not> restart_requested st restart" "\<not> conversation_start st restart"
            "\<not> acknowledged_welcome st"
      by blast
    then show ?thesis
    proof cases
      case a
      with r show ?thesis
        by (auto simp: next_action_restart [OF Inr a] simp del: next_action.simps
              split: sum.splits)
    next
      case b
      with r show ?thesis
        by (auto simp: next_action_start [OF Inr b] simp del: next_action.simps)
    next
      case c
      with r show ?thesis
        by (auto simp: next_action_acknowledged [OF Inr c] simp del: next_action.simps
              split: sum.splits)
    next
      case d
      from r have "fst (dispatch sl st (length h) (agent_offer_state st)
                          (h @ [StrList ss], g)) = Inr acts"
        by (simp add: next_action_dispatch [OF Inr d] del: next_action.simps)
      then show ?thesis by (rule dispatch_nonempty)
    qed
  qed
next
  assume wf: "well_formed sl h st"
  then obtain ss frame db where ss: "get_list h (agent_requestable st) = Inr ss"
    and fr: "get_frame h (frame_CIN st) = Inr frame"
    and db: "get_results h (database_result st) = Inr db"
    by (auto simp: well_formed_def split: sum.splits)
  have ne: "ss \<noteq> []"
    and e: "''agent_req_filled'' \<in> set (agent_offer_state st) \<or>
            ''agent_made_partial_offer'' \<in> set (agent_offer_state st)
              \<longrightarrow> elicit_ok sl frame ss st"
    and rc: "''agent_should_make_offer'' \<in> set (agent_offer_state st) \<or>
            ''agent_made_partial_offer'' \<in> set (agent_offer_state st)
              \<longrightarrow> recommend_ok sl db st"
    and i: "''agent_made_offer'' \<in> set (agent_offer_state st) \<longrightarrow> inform_ok sl st"
    using wf ss fr db by (simp_all add: well_formed_def)
  obtain s0 where s0: "item0 ss = Inr s0" using item0_Inr [OF ne] by blast
  have "\<exists>acts. fst (next_action self sl st ctx restart (h, g)) = Inr acts"
  proof -
    consider (a) "restart_requested st restart"
      | (b) "\<not> restart_requested st restart" "conversation_start st restart"
      | (c) "\<not> restart_requested st restart" "\<not> conversation_start st restart"
            "acknowledged_welcome st"
      | (d) "\<not> restart_requested st restart" "\<not> conversation_start st restart"
            "\<not> acknowledged_welcome st"
      by blast
    then show ?thesis
    proof cases
      case a
      show ?thesis by (simp add: next_action_restart [OF ss a] s0 del: next_action.simps)
    next
      case b
      show ?thesis by (simp add: next_action_start [OF ss b] del: next_action.simps)
    next
      case c
      show ?thesis by (simp add: next_action_acknowledged [OF ss c] s0 del: next_action.simps)
    next
      case d
      have "\<exists>acts. fst (dispatch sl st (length h) (agent_offer_state st)
                           ((h @ [StrList ss]) @ [], g)) = Inr acts"
        using get_frame_append [OF fr, of "[StrList ss]"]
          get_results_append [OF db, of "[StrList ss]"]
          get_list_fresh [of h ss] e rc i
        by (intro dispatch_total [where T = "set (agent_offer_state st)"]) auto
      then show ?thesis
        by (simp add: next_action_dispatch [OF ss d] del: next_action.simps)
    qed
  qed
  then obtain acts where a: "fst (next_action self sl st ctx restart (h, g)) = Inr acts"
    by blast
  have "acts \<noteq> []"
  proof (cases "restart_requested st restart \<or> conversation_start st restart \<or>
                acknowledged_welcome st")
    case True
    then consider (a) "restart_requested st restart"
      | (b) "\<not> restart_requested st restart" "conversation_start st restart"
      | (c) "\<not> restart_requested st restart" "\<not> conversation_start st restart"
            "acknowledged_welcome st"
      by blast
    then show ?thesis
    proof cases
      case a
      with \<open>fst (next_action self sl st ctx restart (h, g)) = Inr acts\<close> show ?thesis
        by (auto simp: next_action_restart [OF ss a] s0 simp del: next_action.simps)
    next
      case b
      with \<open>fst (next_action self sl st ctx restart (h, g)) = Inr acts\<close> show ?thesis
        by (auto simp: next_action_start [OF ss b] simp del: next_action.simps)
    next
      case c
      with \<open>fst (next_action self sl st ctx restart (h, g)) = Inr acts\<close> show ?thesis
        by (auto simp: next_action_acknowledged [OF ss c] s0 simp del: next_action.simps)
    qed
  next
    case False
    with a have "fst (dispatch sl st (length h) (agent_offer_state st)
                          (h @ [StrList ss], g)) = Inr acts"
      by (simp add: next_action_dispatch [OF ss] del: next_action.simps)
    then show ?thesis by (rule dispatch_nonempty)
  qed
  with a show "\<exists>acts. fst (next_action self sl st ctx restart (h, g)) = Inr acts \<and> acts \<noteq> []"
    by blast
next
  assume d: "(\<exists>ss. get_list h (agent_requestable st) = Inr ss) \<and>
       \<not> restart_requested st restart \<and> \<not> conversation_start st restart \<and>
       \<not> acknowledged_welcome st \<and>
       (\<forall>tag \<in> set (agent_offer_state st). \<forall>action.
          map_of possible_actions_per_state tag = Some action \<longrightarrow>
          (\<forall>h2 g2. store_ext (length h) h h2 \<longrightarrow>
             fst (action sl st (length h) (h2, g2)) = Inr []))"
  then obtain ss where ss: "get_list h (agent_requestable st) = Inr ss" by blast
  have "fst (dispatch sl st (length h) (agent_offer_state st) (h @ [StrList ss], g)) =
          Inr [DialogueAct A_CANT_HELP []]"
    using d by (intro dispatch_all_decline [where n = "length h" and ?h0.0 = h])
      (simp_all add: store_ext_append)
  then show "fst (next_action self sl st ctx restart (h, g)) = Inr [DialogueAct A_CANT_HELP []]"
    using d by (simp add: next_action_dispatch [OF ss] del: next_action.simps)
next
  fix state_name rest action slots w w1
  assume "map_of possible_actions_per_state state_name = Some action \<and>
         action sl st slots w = (Inr [], w1)"
  then show "dispatch sl st slots (state_name # rest) w = dispatch sl st slots rest w1"
    by (simp add: dispatch_continue)
qed

text \<open>
  The theorem at the concrete snapshot, which is well-formed, and at a snapshot whose
  active state names are \<open>agent_req_filled\<close> with the threshold not met, a name that is not
  in the table, and \<open>agent_made_offer\<close> with no user act to answer.
\<close>

theorem next_action_total_witness:
  "well_formed sl0 store0 state0
   \<and> (\<exists>acts. fst (next_action policy0 sl0 state0 () False (store0, rng0)) = Inr acts \<and>
          acts \<noteq> [])
   \<and> fst (next_action policy0 sl0 state_decline () False (store0, rng0)) =
       Inr [DialogueAct A_CANT_HELP []]"
proof -
  let ?frame = "[(''genres'', PNone), (''actors'', PNone), (''title'', PNone)]"
  have wf: "well_formed sl0 store0 state0"
    by (simp add: well_formed_def elicit_ok_def store0_def state0_def get_list_def
          get_frame_def get_results_def keys_def)
  have r1: "\<exists>acts. fst (next_action policy0 sl0 state0 () False (store0, rng0)) = Inr acts \<and>
          acts \<noteq> []"
    using next_action_total [of policy0 sl0 state0 "()" False store0 rng0] wf by blast
  have pre: "(\<exists>ss. get_list store0 (agent_requestable state_decline) = Inr ss) \<and>
       \<not> restart_requested state_decline False \<and> \<not> conversation_start state_decline False \<and>
       \<not> acknowledged_welcome state_decline"
    by (simp add: state_decline_def state0_def store0_def get_list_def restart_requested_def
          conversation_start_def acknowledged_welcome_def)
  have fr: "get_frame store0 (frame_CIN state_decline) = Inr ?frame"
    by (simp add: state_decline_def state0_def store0_def get_frame_def)
  have cin: "CIN_slots_of sl0 ?frame (keys ?frame) = Inr [''genres'', ''actors'']"
    by (simp add: keys_def dict_getitem_def sl0_def)
  have below: "\<not> slot_left_unasked state_decline \<le> int (length [''genres'', ''actors''])"
    by (simp add: state_decline_def)
  have el: "fst (elicit sl0 state_decline (length store0) (h2, g2)) = Inr []"
    if "store_ext (length store0) store0 h2" for h2 g2
  proof -
    have "get_frame h2 (frame_CIN state_decline) = get_frame store0 (frame_CIN state_decline)"
      using that by (rule get_frame_ext) (simp_all add: state_decline_def state0_def store0_def)
    then have "get_frame h2 (frame_CIN state_decline) = Inr ?frame" using fr by simp
    then show ?thesis using elicit_below_threshold [OF _ cin below] by simp
  qed
  have inf: "fst (inform_or_recommend sl0 state_decline (length store0) w) = Inr []" for w
    by (simp add: state_decline_def state0_def)
  have tags: "\<forall>tag \<in> set (agent_offer_state state_decline). \<forall>action.
          map_of possible_actions_per_state tag = Some action \<longrightarrow>
          (\<forall>h2 g2. store_ext (length store0) store0 h2 \<longrightarrow>
             fst (action sl0 state_decline (length store0) (h2, g2)) = Inr [])"
    using el inf by (simp add: state_decline_def possible_actions_per_state_def)
  have r2: "fst (next_action policy0 sl0 state_decline () False (store0, rng0)) =
       Inr [DialogueAct A_CANT_HELP []]"
    using next_action_total [of policy0 sl0 state_decline "()" False store0 rng0] pre tags
    by blast
  show ?thesis using wf r1 r2 by simp
qed

end
